theory Spec2Isabelle
  imports Complex_Main
begin

section \<open>JavaScript strings\<close>

text \<open>
  The converter \<^verbatim>\<open>csvToJson\<close> of \<^verbatim>\<open>src/App.tsx\<close> (lines 35 to 80; the second view
  holds the same function) works on JavaScript strings. A string is modelled as a
  \<^typ>\<open>string\<close>, each \<^typ>\<open>char\<close> standing for one UTF-16 code unit in the range
  0 to 255 (ASCII and Latin-1); code units above 255 are outside the embedding.
  The library functions the converter calls are written out as ECMAScript defines them
  on that range.
\<close>

text \<open>White space and line terminators below 256, the characters \<^verbatim>\<open>trim\<close> strips.\<close>

definition is_white_space :: "char \<Rightarrow> bool" where
  "is_white_space c \<longleftrightarrow>
     c \<in> {CHR 0x09, CHR 0x0A, CHR 0x0B, CHR 0x0C, CHR 0x0D, CHR 0x20, CHR 0xA0}"

text \<open>\<^verbatim>\<open>String.prototype.trim\<close>.\<close>

definition trim :: "string \<Rightarrow> string" where
  "trim s = rev (dropWhile is_white_space (rev (dropWhile is_white_space s)))"

text \<open>
  \<^verbatim>\<open>String.prototype.split\<close> with a one-character separator: the empty string gives one
  empty field, and \<open>n\<close> separators give \<open>n + 1\<close> fields.
\<close>

fun str_split :: "char \<Rightarrow> string \<Rightarrow> string list" where
  "str_split sep [] = [[]]"
| "str_split sep (c # cs) =
     (if c = sep then [] # str_split sep cs
      else (case str_split sep cs of
              [] \<Rightarrow> [[c]]
            | f # fs \<Rightarrow> (c # f) # fs))"

text \<open>\<^verbatim>\<open>String.prototype.toLowerCase\<close> on code units below 256.\<close>

definition lower_char :: "char \<Rightarrow> char" where
  "lower_char c =
     (let n = (of_char c :: nat)
      in if (65 \<le> n \<and> n \<le> 90) \<or> (192 \<le> n \<and> n \<le> 222 \<and> n \<noteq> 215)
         then char_of (n + 32) else c)"

definition toLowerCase :: "string \<Rightarrow> string" where
  "toLowerCase s = map lower_char s"

section \<open>Numbers\<close>

text \<open>
  A Number value is \<open>NaN\<close>, an infinity (the flag says negative), or finite. A finite
  Number is represented by the exact value of the literal it was read from; the rounding
  to the nearest double is left to the function that prints it.  A literal whose value
  rounds beyond the largest double is an infinity.
\<close>

datatype number = NaN | Infinity bool | Finite rat

definition round_number :: "bool \<Rightarrow> rat \<Rightarrow> number" where
  "round_number neg v =
     (if 2 ^ 1024 - 2 ^ 970 \<le> v then Infinity neg
      else Finite (if neg then - v else v))"

definition is_decimal_digit :: "char \<Rightarrow> bool" where
  "is_decimal_digit c \<longleftrightarrow> (48::nat) \<le> of_char c \<and> (of_char c :: nat) \<le> 57"

definition digit_value :: "char \<Rightarrow> nat" where
  "digit_value c =
     (let n = (of_char c :: nat)
      in if 48 \<le> n \<and> n \<le> 57 then n - 48
         else if 97 \<le> n \<and> n \<le> 102 then n - 87
         else if 65 \<le> n \<and> n \<le> 70 then n - 55
         else 99)"

text \<open>The value of a digit sequence in a base, most significant digit first.\<close>

definition digits_value :: "nat \<Rightarrow> string \<Rightarrow> nat" where
  "digits_value b ds = foldl (\<lambda>acc c. acc * b + digit_value c) 0 ds"

definition all_digits :: "nat \<Rightarrow> string \<Rightarrow> bool" where
  "all_digits b ds \<longleftrightarrow> ds \<noteq> [] \<and> list_all (\<lambda>c. digit_value c < b) ds"

text \<open>\<open>SignedInteger\<close>: decimal digits with an optional sign.\<close>

definition SignedInteger :: "string \<Rightarrow> int option" where
  "SignedInteger s =
     (case s of
        [] \<Rightarrow> None
      | c # r \<Rightarrow>
          if c = CHR ''+'' then (if all_digits 10 r then Some (int (digits_value 10 r)) else None)
          else if c = CHR ''-'' then (if all_digits 10 r then Some (- int (digits_value 10 r)) else None)
          else if all_digits 10 s then Some (int (digits_value 10 s)) else None)"

text \<open>\<open>ExponentPart\<close>, optional: what is left after the mantissa is empty or an exponent.\<close>

definition ExponentPart :: "string \<Rightarrow> int option" where
  "ExponentPart s =
     (case s of
        [] \<Rightarrow> Some 0
      | c # r \<Rightarrow> if c = CHR ''e'' \<or> c = CHR ''E'' then SignedInteger r else None)"

text \<open>
  \<open>StrUnsignedDecimalLiteral\<close>: \<^verbatim>\<open>Infinity\<close>, or digits with an optional fraction and
  an optional exponent, at least one digit before or after the point.
\<close>

definition StrUnsignedDecimalLiteral :: "bool \<Rightarrow> string \<Rightarrow> number" where
  "StrUnsignedDecimalLiteral neg t =
     (if t = ''Infinity'' then Infinity neg
      else
        let ip = takeWhile is_decimal_digit t;
            r1 = dropWhile is_decimal_digit t;
            fp = (case r1 of [] \<Rightarrow> [] | c # r \<Rightarrow>
                    if c = CHR ''.'' then takeWhile is_decimal_digit r else []);
            r2 = (case r1 of [] \<Rightarrow> [] | c # r \<Rightarrow>
                    if c = CHR ''.'' then dropWhile is_decimal_digit r else r1)
        in if ip = [] \<and> fp = [] then NaN
           else (case ExponentPart r2 of
                   None \<Rightarrow> NaN
                 | Some e \<Rightarrow>
                     let m = (of_nat (digits_value 10 (ip @ fp)) :: rat);
                         x = e - int (length fp)
                     in round_number neg
                          (if 0 \<le> x then m * 10 ^ nat x else m / 10 ^ nat (- x))))"

text \<open>\<open>NonDecimalIntegerLiteral\<close>: binary, octal or hexadecimal, never signed.\<close>

definition NonDecimalIntegerLiteral :: "string \<Rightarrow> nat option" where
  "NonDecimalIntegerLiteral t =
     (case t of
        c0 # p # ds \<Rightarrow>
          if c0 \<noteq> CHR ''0'' then None
          else if (p = CHR ''b'' \<or> p = CHR ''B'') \<and> all_digits 2 ds then Some (digits_value 2 ds)
          else if (p = CHR ''o'' \<or> p = CHR ''O'') \<and> all_digits 8 ds then Some (digits_value 8 ds)
          else if (p = CHR ''x'' \<or> p = CHR ''X'') \<and> all_digits 16 ds then Some (digits_value 16 ds)
          else None
      | _ \<Rightarrow> None)"

text \<open>
  \<^verbatim>\<open>Number(s)\<close> for a string \<open>s\<close> (\<open>StringToNumber\<close>): white space around the literal
  is ignored, the empty literal is zero, and a string that is not a
  \<open>StringNumericLiteral\<close> gives \<open>NaN\<close>.
\<close>

definition Number :: "string \<Rightarrow> number" where
  "Number s =
     (let t = trim s
      in if t = [] then Finite 0
         else (case NonDecimalIntegerLiteral t of
                 Some n \<Rightarrow> round_number False (of_nat n)
               | None \<Rightarrow>
                   (case t of
                      [] \<Rightarrow> NaN
                    | c # r \<Rightarrow>
                        if c = CHR ''+'' then StrUnsignedDecimalLiteral False r
                        else if c = CHR ''-'' then StrUnsignedDecimalLiteral True r
                        else StrUnsignedDecimalLiteral False t)))"

definition isNaN :: "number \<Rightarrow> bool" where
  "isNaN x \<longleftrightarrow> x = NaN"

section \<open>Values and objects\<close>

text \<open>The values a cell can become: a number, a boolean, \<^verbatim>\<open>null\<close> or a string.\<close>

datatype jsvalue = JSNumber number | JSBoolean bool | JSNull | JSString string

text \<open>
  The object a row is stored in is created by \<^verbatim>\<open>{}\<close>: an ordinary object whose prototype
  is \<^verbatim>\<open>Object.prototype\<close>. Its state is the list of its own properties in the order
  they were created, and whether it still has that prototype.
\<close>

record jsobject =
  has_prototype :: bool
  props :: "(string \<times> jsvalue) list"

definition empty_object :: jsobject where
  "empty_object = \<lparr>has_prototype = True, props = []\<rparr>"

text \<open>
  The assignment \<^verbatim>\<open>obj[key] = v\<close> for a primitive \<open>v\<close>. An own property is overwritten
  where it stands. A key that is not an own property is looked up on the prototype: the
  only accessor of \<^verbatim>\<open>Object.prototype\<close> is \<^verbatim>\<open>__proto__\<close>, whose setter ignores a
  primitive other than \<^verbatim>\<open>null\<close> and, given \<^verbatim>\<open>null\<close>, removes the prototype. Any other
  key, and \<^verbatim>\<open>__proto__\<close> on an object without prototype, becomes a new own property.
\<close>

definition obj_set :: "jsobject \<Rightarrow> string \<Rightarrow> jsvalue \<Rightarrow> jsobject" where
  "obj_set obj key v =
     (if key \<in> set (map fst (props obj))
      then obj\<lparr>props := map (\<lambda>(k, w). if k = key then (k, v) else (k, w)) (props obj)\<rparr>
      else if key = ''__proto__'' \<and> has_prototype obj
      then (if v = JSNull then obj\<lparr>has_prototype := False\<rparr> else obj)
      else obj\<lparr>props := props obj @ [(key, v)]\<rparr>)"

text \<open>\<^verbatim>\<open>obj[key]\<close> read as an own property.\<close>

definition obj_get :: "jsobject \<Rightarrow> string \<Rightarrow> jsvalue option" where
  "obj_get obj key = map_of (props obj) key"

text \<open>
  An array index is the canonical decimal form of an integer from 0 to \<open>2^32 - 2\<close>.
\<close>

definition is_array_index :: "string \<Rightarrow> bool" where
  "is_array_index k \<longleftrightarrow>
     all_digits 10 k \<and> (k = ''0'' \<or> hd k \<noteq> CHR ''0'') \<and> digits_value 10 k \<le> 4294967294"

text \<open>
  The own properties in the order \<open>OrdinaryOwnPropertyKeys\<close> lists them, which is the order
  \<^verbatim>\<open>JSON.stringify\<close> writes them in: array indices ascending, then the other keys in the
  order of their creation.
\<close>

definition EnumerableOwnProperties :: "jsobject \<Rightarrow> (string \<times> jsvalue) list" where
  "EnumerableOwnProperties obj =
     sort_key (\<lambda>(k, v). digits_value 10 k) (filter (\<lambda>(k, v). is_array_index k) (props obj))
     @ filter (\<lambda>(k, v). \<not> is_array_index k) (props obj)"

definition own_keys :: "jsobject \<Rightarrow> string list" where
  "own_keys obj = map fst (EnumerableOwnProperties obj)"

section \<open>The converter\<close>

text \<open>
  The type inference of lines 58 to 72, applied to the trimmed cell \<^verbatim>\<open>values[index]\<close>.
\<close>

definition coerce :: "string \<Rightarrow> jsvalue" where
  "coerce v =
     (if \<not> isNaN (Number v) \<and> v \<noteq> [] then JSNumber (Number v)
      else if toLowerCase v = ''true'' \<or> toLowerCase v = ''false''
      then JSBoolean (toLowerCase v = ''true'')
      else if toLowerCase v = ''null'' \<or> v = [] then JSNull
      else JSString v)"

text \<open>
  The body of \<^verbatim>\<open>headers.forEach\<close>: starting from \<^verbatim>\<open>{}\<close>, each header in turn is assigned
  the coerced cell of its column. The loop over the rows only reaches it when the row has
  as many cells as there are headers, so the columns are the pairs of \<open>zip\<close>.
\<close>

definition build_obj :: "string list \<Rightarrow> string list \<Rightarrow> jsobject" where
  "build_obj headers vals =
     foldl (\<lambda>obj (header, v). obj_set obj header (coerce v)) empty_object (zip headers vals)"

text \<open>
  The errors thrown; \<open>ColumnMismatch r n m\<close> carries the row number, the number of cells
  of the row and the number of headers. \<open>error_message\<close> is the text of the \<^verbatim>\<open>Error\<close>.
\<close>

datatype conversion_error = EmptyInput | InsufficientRows | ColumnMismatch nat nat nat

text \<open>The decimal digits of a natural number, as a template literal prints it.\<close>

fun show_nat :: "nat \<Rightarrow> string" where
  "show_nat n =
     (if n < 10 then [''0123456789'' ! n]
      else show_nat (n div 10) @ [''0123456789'' ! (n mod 10)])"

declare show_nat.simps [simp del]

fun error_message :: "conversion_error \<Rightarrow> string" where
  "error_message EmptyInput = ''CSV input is empty''"
| "error_message InsufficientRows = ''CSV must have at least a header row and one data row''"
| "error_message (ColumnMismatch r n m) =
     ''Row '' @ show_nat r @ '' has '' @ show_nat n @ '' columns, but header has ''
       @ show_nat m @ '' columns''"

text \<open>
  The loop \<^verbatim>\<open>for (let i = 1; i < lines.length; i++)\<close>: \<open>i\<close> is the index of the line,
  \<open>ls\<close> the lines from \<open>i\<close> on and \<open>jsonArray\<close> the objects pushed so far.
\<close>

fun rows_loop :: "string list \<Rightarrow> nat \<Rightarrow> string list \<Rightarrow> jsobject list \<Rightarrow> conversion_error + jsobject list" where
  "rows_loop headers i [] jsonArray = Inr jsonArray"
| "rows_loop headers i (l # ls) jsonArray =
     (let vals = map trim (str_split CHR '','' l)
      in if length vals \<noteq> length headers
         then Inl (ColumnMismatch (i + 1) (length vals) (length headers))
         else rows_loop headers (i + 1) ls (jsonArray @ [build_obj headers vals]))"

text \<open>
  \<^verbatim>\<open>csvToJson\<close> up to its last line: the array handed to \<^verbatim>\<open>JSON.stringify\<close>, or the error
  thrown before.
\<close>

definition csvToJson_array :: "string \<Rightarrow> conversion_error + jsobject list" where
  "csvToJson_array csv =
     (if trim csv = [] then Inl EmptyInput
      else
        let lines = str_split CHR 0x0A (trim csv)
        in if length lines < 2 then Inl InsufficientRows
           else
             let headers = map trim (str_split CHR '','' (hd lines))
             in rows_loop headers 1 (tl lines) [])"

section \<open>\<^verbatim>\<open>JSON.stringify\<close>\<close>

definition hex4 :: "nat \<Rightarrow> string" where
  "hex4 n = map (\<lambda>d. ''0123456789abcdef'' ! d)
              [n div 4096 mod 16, n div 256 mod 16, n div 16 mod 16, n mod 16]"

text \<open>
  \<open>QuoteJSONString\<close>: the two-character escapes, \<^verbatim>\<open>\uXXXX\<close> for the other control
  characters, every other character as it is.
\<close>

definition quote_char :: "char \<Rightarrow> string" where
  "quote_char c =
     (if c = CHR 0x08 then [CHR 0x5C, CHR ''b'']
      else if c = CHR 0x09 then [CHR 0x5C, CHR ''t'']
      else if c = CHR 0x0A then [CHR 0x5C, CHR ''n'']
      else if c = CHR 0x0C then [CHR 0x5C, CHR ''f'']
      else if c = CHR 0x0D then [CHR 0x5C, CHR ''r'']
      else if c = CHR 0x22 then [CHR 0x5C, CHR 0x22]
      else if c = CHR 0x5C then [CHR 0x5C, CHR 0x5C]
      else if (of_char c :: nat) < 32 then [CHR 0x5C, CHR ''u''] @ hex4 (of_char c)
      else [c])"

definition QuoteJSONString :: "string \<Rightarrow> string" where
  "QuoteJSONString s = [CHR 0x22] @ concat (map quote_char s) @ [CHR 0x22]"

text \<open>
  \<open>Number::toString\<close>. An integer up to \<open>2^53\<close> in absolute value is a double and prints
  as its decimal digits. The digits of any other finite Number are those of the double
  nearest to it; producing them is floating-point arithmetic, taken here as the parameter
  \<open>fmt\<close>.
\<close>

definition Number_toString :: "(rat \<Rightarrow> string) \<Rightarrow> rat \<Rightarrow> string" where
  "Number_toString fmt v =
     (if of_int \<lfloor>v\<rfloor> = v \<and> \<bar>v\<bar> \<le> 2 ^ 53
      then (if v < 0 then ''-'' else []) @ show_nat (nat \<bar>\<lfloor>v\<rfloor>\<bar>)
      else fmt v)"

text \<open>\<open>SerializeJSONProperty\<close> for a primitive: a Number that is not finite is \<^verbatim>\<open>null\<close>.\<close>

fun SerializeJSONProperty :: "(rat \<Rightarrow> string) \<Rightarrow> jsvalue \<Rightarrow> string" where
  "SerializeJSONProperty fmt JSNull = ''null''"
| "SerializeJSONProperty fmt (JSBoolean b) = (if b then ''true'' else ''false'')"
| "SerializeJSONProperty fmt (JSString s) = QuoteJSONString s"
| "SerializeJSONProperty fmt (JSNumber (Finite v)) = Number_toString fmt v"
| "SerializeJSONProperty fmt (JSNumber _) = ''null''"

fun join :: "string \<Rightarrow> string list \<Rightarrow> string" where
  "join sep [] = []"
| "join sep [x] = x"
| "join sep (x # y # ys) = x @ sep @ join sep (y # ys)"

text \<open>
  \<open>SerializeJSONObject\<close> and \<open>SerializeJSONArray\<close> with the gap \<open>gap\<close> at the indentation
  \<open>stepback\<close>.
\<close>

definition SerializeJSONObject :: "(rat \<Rightarrow> string) \<Rightarrow> string \<Rightarrow> string \<Rightarrow> jsobject \<Rightarrow> string" where
  "SerializeJSONObject fmt gap stepback obj =
     (let indent = stepback @ gap;
          partial = map (\<lambda>(k, v). QuoteJSONString k @ '':'' @ (if gap \<noteq> [] then '' '' else [])
                                    @ SerializeJSONProperty fmt v)
                        (EnumerableOwnProperties obj)
      in if partial = [] then ''{}''
         else if gap = [] then ''{'' @ join '','' partial @ ''}''
         else ''{'' @ [CHR 0x0A] @ indent @ join ('','' @ [CHR 0x0A] @ indent) partial
                @ [CHR 0x0A] @ stepback @ ''}'')"

definition SerializeJSONArray :: "(rat \<Rightarrow> string) \<Rightarrow> string \<Rightarrow> string \<Rightarrow> jsobject list \<Rightarrow> string" where
  "SerializeJSONArray fmt gap stepback arr =
     (let indent = stepback @ gap;
          partial = map (SerializeJSONObject fmt gap indent) arr
      in if partial = [] then ''[]''
         else if gap = [] then ''['' @ join '','' partial @ '']''
         else ''['' @ [CHR 0x0A] @ indent @ join ('','' @ [CHR 0x0A] @ indent) partial
                @ [CHR 0x0A] @ stepback @ '']'')"

text \<open>\<^verbatim>\<open>JSON.stringify(arr, null, space)\<close> for a number \<open>space\<close>: the gap is that many spaces, at most ten.\<close>

definition JSON_stringify :: "(rat \<Rightarrow> string) \<Rightarrow> jsobject list \<Rightarrow> nat \<Rightarrow> string" where
  "JSON_stringify fmt arr space = SerializeJSONArray fmt (replicate (min 10 space) CHR '' '') [] arr"

text \<open>\<^verbatim>\<open>csvToJson\<close>: the JSON text, or the error thrown.\<close>

definition csvToJson :: "(rat \<Rightarrow> string) \<Rightarrow> string \<Rightarrow> conversion_error + string" where
  "csvToJson fmt csv =
     (case csvToJson_array csv of
        Inl e \<Rightarrow> Inl e
      | Inr jsonArray \<Rightarrow> Inr (JSON_stringify fmt jsonArray 2))"

section \<open>The converter on a heap\<close>

text \<open>
  The definitions above treat the array \<^verbatim>\<open>jsonArray\<close> and the row objects as values. To
  state what a call leaves behind for the next one, the same lines are written once more
  with the objects where JavaScript keeps them: in a heap of cells addressed by number, a
  cell being an object or an array of references. \<^verbatim>\<open>const jsonArray = []\<close> and
  \<^verbatim>\<open>const obj = {}\<close> allocate a cell, \<^verbatim>\<open>obj[header] = value\<close> and \<^verbatim>\<open>jsonArray.push(obj)\<close>
  update the cell they refer to, and \<^verbatim>\<open>JSON.stringify\<close> reads the array and the objects it
  refers to out of the heap. The heap a call starts in is arbitrary: it stands for
  everything earlier calls and the rest of the program have allocated. The body of
  \<^verbatim>\<open>csvToJson\<close> (lines 35 to 80) names no variable of the enclosing component, so the heap
  is all the state it can reach. A step on a cell that is missing or of the other kind
  gives \<open>None\<close>; the result is \<open>Some\<close> of the text or of the error thrown otherwise. When an
  error is thrown the heap is returned as the loop left it.
\<close>

datatype cell = ObjCell jsobject | ArrCell "nat list"

type_synonym heap = "cell list"

text \<open>Allocation takes the next free address.\<close>

definition alloc :: "heap \<Rightarrow> cell \<Rightarrow> nat \<times> heap" where
  "alloc h c = (length h, h @ [c])"

definition heap_get :: "heap \<Rightarrow> nat \<Rightarrow> cell option" where
  "heap_get h a = (if a < length h then Some (h ! a) else None)"

text \<open>\<^verbatim>\<open>obj[key] = v\<close> and \<^verbatim>\<open>arr.push(r)\<close> through a reference.\<close>

definition assign_prop :: "heap \<Rightarrow> nat \<Rightarrow> string \<Rightarrow> jsvalue \<Rightarrow> heap option" where
  "assign_prop h a key v =
     (case heap_get h a of
        Some (ObjCell obj) \<Rightarrow> Some (h[a := ObjCell (obj_set obj key v)])
      | _ \<Rightarrow> None)"

definition array_push :: "heap \<Rightarrow> nat \<Rightarrow> nat \<Rightarrow> heap option" where
  "array_push h a r =
     (case heap_get h a of
        Some (ArrCell refs) \<Rightarrow> Some (h[a := ArrCell (refs @ [r])])
      | _ \<Rightarrow> None)"

text \<open>The \<^verbatim>\<open>headers.forEach\<close> of lines 58 to 75 on the object at address \<open>obj\<close>.\<close>

fun forEach_header :: "heap \<Rightarrow> nat \<Rightarrow> (string \<times> string) list \<Rightarrow> heap option" where
  "forEach_header h obj [] = Some h"
| "forEach_header h obj ((header, v) # cols) =
     (case assign_prop h obj header (coerce v) of
        None \<Rightarrow> None
      | Some h' \<Rightarrow> forEach_header h' obj cols)"

text \<open>The loop over the rows, \<open>jsonArray\<close> being the address of the array.\<close>

fun rows_loop_heap ::
  "string list \<Rightarrow> nat \<Rightarrow> string list \<Rightarrow> nat \<Rightarrow> heap \<Rightarrow> (conversion_error + unit) option \<times> heap" where
  "rows_loop_heap headers i [] jsonArray h = (Some (Inr ()), h)"
| "rows_loop_heap headers i (l # ls) jsonArray h =
     (let vals = map trim (str_split CHR '','' l)
      in if length vals \<noteq> length headers
         then (Some (Inl (ColumnMismatch (i + 1) (length vals) (length headers))), h)
         else
           let (obj, h1) = alloc h (ObjCell empty_object)
           in case forEach_header h1 obj (zip headers vals) of
                None \<Rightarrow> (None, h1)
              | Some h2 \<Rightarrow>
                  (case array_push h2 jsonArray obj of
                     None \<Rightarrow> (None, h2)
                   | Some h3 \<Rightarrow> rows_loop_heap headers (i + 1) ls jsonArray h3))"

text \<open>The objects a list of references refers to.\<close>

fun read_objects :: "heap \<Rightarrow> nat list \<Rightarrow> jsobject list option" where
  "read_objects h [] = Some []"
| "read_objects h (r # rs) =
     (case heap_get h r of
        Some (ObjCell obj) \<Rightarrow> map_option ((#) obj) (read_objects h rs)
      | _ \<Rightarrow> None)"

text \<open>\<^verbatim>\<open>JSON.stringify\<close> of the array at address \<open>a\<close>.\<close>

definition JSON_stringify_heap :: "(rat \<Rightarrow> string) \<Rightarrow> heap \<Rightarrow> nat \<Rightarrow> nat \<Rightarrow> string option" where
  "JSON_stringify_heap fmt h a space =
     (case heap_get h a of
        Some (ArrCell refs) \<Rightarrow> map_option (\<lambda>objs. JSON_stringify fmt objs space) (read_objects h refs)
      | _ \<Rightarrow> None)"

text \<open>\<^verbatim>\<open>csvToJson\<close> started in the heap \<open>h\<close>: its outcome and the heap it leaves.\<close>

definition csvToJson_heap ::
  "(rat \<Rightarrow> string) \<Rightarrow> heap \<Rightarrow> string \<Rightarrow> (conversion_error + string) option \<times> heap" where
  "csvToJson_heap fmt h csv =
     (if trim csv = [] then (Some (Inl EmptyInput), h)
      else
        let lines = str_split CHR 0x0A (trim csv)
        in if length lines < 2 then (Some (Inl InsufficientRows), h)
           else
             let headers = map trim (str_split CHR '','' (hd lines));
                 (jsonArray, h1) = alloc h (ArrCell [])
             in case rows_loop_heap headers 1 (tl lines) jsonArray h1 of
                  (None, h2) \<Rightarrow> (None, h2)
                | (Some (Inl e), h2) \<Rightarrow> (Some (Inl e), h2)
                | (Some (Inr u), h2) \<Rightarrow>
                    (map_option Inr (JSON_stringify_heap fmt h2 jsonArray 2), h2))"

section \<open>Notions used to state the properties\<close>

text \<open>The elements of a list in the order of their first occurrence.\<close>

fun first_occurrences :: "'a list \<Rightarrow> 'a list" where
  "first_occurrences [] = []"
| "first_occurrences (x # xs) = x # first_occurrences (filter (\<lambda>y. y \<noteq> x) xs)"

text \<open>A text with every line feed turned into carriage return and line feed.\<close>

definition to_crlf :: "string \<Rightarrow> string" where
  "to_crlf s = concat (map (\<lambda>c. if c = CHR 0x0A then [CHR 0x0D, CHR 0x0A] else [c]) s)"

text \<open>A list without its longest suffix of elements satisfying \<open>P\<close>.\<close>

definition strip_end :: "('a \<Rightarrow> bool) \<Rightarrow> 'a list \<Rightarrow> 'a list" where
  "strip_end P xs = rev (dropWhile P (rev xs))"

section \<open>Lemmas about the library functions and the row loop\<close>

lemma str_split_not_Nil: "str_split sep s \<noteq> []"
  by (induction s) (auto split: list.splits)

lemma str_split_Cons:
  "str_split sep (c # cs) =
     (if c = sep then [] # str_split sep cs
      else (c # hd (str_split sep cs)) # tl (str_split sep cs))"
  using str_split_not_Nil [of sep cs] by (cases "str_split sep cs") auto

lemma length_str_split: "length (str_split sep s) = Suc (length (filter (\<lambda>c. c = sep) s))"
  by (induction s) (auto split: list.splits)

lemma rows_loop_ok:
  "\<forall>l \<in> set ls. length (str_split CHR '','' l) = length headers \<Longrightarrow>
   rows_loop headers i ls acc =
     Inr (acc @ map (\<lambda>l. build_obj headers (map trim (str_split CHR '','' l))) ls)"
  by (induction ls arbitrary: i acc) (auto simp: Let_def)

lemma rows_loop_fail:
  "\<forall>l \<in> set pre. length (str_split CHR '','' l) = length headers \<Longrightarrow>
   length (str_split CHR '','' l) \<noteq> length headers \<Longrightarrow>
   rows_loop headers i (pre @ l # post) acc =
     Inl (ColumnMismatch (i + length pre + 1) (length (str_split CHR '','' l)) (length headers))"
  by (induction pre arbitrary: i acc) (auto simp: Let_def)

lemma first_bad_split:
  "\<exists>l \<in> set ls. \<not> P l \<Longrightarrow> \<exists>pre l post. ls = pre @ l # post \<and> (\<forall>x \<in> set pre. P x) \<and> \<not> P l"
proof (induction ls)
  case Nil
  then show ?case by simp
next
  case (Cons a ls)
  show ?case
  proof (cases "P a")
    case False
    then have "a # ls = [] @ a # ls \<and> (\<forall>x \<in> set []. P x) \<and> \<not> P a" by simp
    then show ?thesis by blast
  next
    case True
    with Cons.prems have "\<exists>l \<in> set ls. \<not> P l" by auto
    from Cons.IH [OF this] obtain pre l post
      where "ls = pre @ l # post" "\<forall>x \<in> set pre. P x" "\<not> P l" by blast
    with True have "a # ls = (a # pre) @ l # post \<and> (\<forall>x \<in> set (a # pre). P x) \<and> \<not> P l"
      by simp
    then show ?thesis by blast
  qed
qed

lemma rows_loop_Inr_iff:
  "(\<exists>objs. rows_loop headers i ls acc = Inr objs) \<longleftrightarrow>
   (\<forall>l \<in> set ls. length (str_split CHR '','' l) = length headers)"
proof
  assume ok: "\<forall>l \<in> set ls. length (str_split CHR '','' l) = length headers"
  show "\<exists>objs. rows_loop headers i ls acc = Inr objs"
    using rows_loop_ok [OF ok] by simp
next
  assume r: "\<exists>objs. rows_loop headers i ls acc = Inr objs"
  show "\<forall>l \<in> set ls. length (str_split CHR '','' l) = length headers"
  proof (rule ccontr)
    assume "\<not> ?thesis"
    then have "\<exists>l \<in> set ls. \<not> length (str_split CHR '','' l) = length headers" by simp
    from first_bad_split [where P = "\<lambda>l. length (str_split CHR '','' l) = length headers", OF this]
    obtain pre l post where "ls = pre @ l # post"
      "\<forall>x \<in> set pre. length (str_split CHR '','' x) = length headers"
      "length (str_split CHR '','' l) \<noteq> length headers" by blast
    with rows_loop_fail [of pre headers l i post acc] r show False by auto
  qed
qed

lemma rows_loop_Inl_kind:
  "rows_loop headers i ls acc = Inl e \<Longrightarrow> \<exists>r n. e = ColumnMismatch r n (length headers)"
  by (induction ls arbitrary: i acc) (auto simp: Let_def split: if_splits)

section \<open>Lemmas about the row objects\<close>

lemma set_first_occurrences: "set (first_occurrences xs) = set xs"
  by (induction xs rule: first_occurrences.induct) auto

lemma distinct_first_occurrences: "distinct (first_occurrences xs)"
  by (induction xs rule: first_occurrences.induct) (auto simp: set_first_occurrences)

lemma map_fst_update:
  "map fst (map (\<lambda>(k, w). if k = key then (k, v) else (k, w)) ps) = map fst ps"
  by (induction ps) auto

lemma map_of_update:
  "map_of (map (\<lambda>(k, w). if k = key then (k, v) else (k, w)) ps) k' =
     (if k' = key \<and> key \<in> fst ` set ps then Some v else map_of ps k')"
proof (induction ps)
  case Nil
  then show ?case by simp
next
  case (Cons p ps)
  obtain k w where p: "p = (k, w)" by (cases p)
  show ?case using Cons.IH by (auto simp: p image_iff) force+
qed

lemma keys_obj_set:
  "key \<noteq> ''__proto__'' \<Longrightarrow>
   map fst (props (obj_set obj key v)) =
     (if key \<in> set (map fst (props obj)) then map fst (props obj)
      else map fst (props obj) @ [key])"
  unfolding obj_set_def by (simp add: map_fst_update del: map_map)

lemma obj_get_obj_set:
  "k' \<noteq> ''__proto__'' \<Longrightarrow>
   obj_get (obj_set obj key v) k' = (if k' = key then Some v else obj_get obj k')"
proof -
  assume k': "k' \<noteq> ''__proto__''"
  show ?thesis
  proof (cases "key \<in> fst ` set (props obj)")
    case True
    then show ?thesis by (simp add: obj_get_def obj_set_def map_of_update)
  next
    case False
    then have none: "map_of (props obj) key = None" by (simp add: map_of_eq_None_iff)
    show ?thesis
      using False k' none by (auto simp: obj_get_def obj_set_def map_add_def split: option.splits)
  qed
qed

lemma keys_assign:
  "''__proto__'' \<notin> set (map fst kvs) \<Longrightarrow>
   map fst (props (foldl (\<lambda>obj (header, v). obj_set obj header (coerce v)) obj kvs)) =
     map fst (props obj)
       @ first_occurrences (filter (\<lambda>k. k \<notin> set (map fst (props obj))) (map fst kvs))"
proof (induction kvs arbitrary: obj)
  case Nil
  then show ?case by simp
next
  case (Cons kv kvs)
  obtain k v where kv: "kv = (k, v)" by (cases kv)
  from Cons.prems kv have k: "k \<noteq> ''__proto__''" and rest: "''__proto__'' \<notin> set (map fst kvs)"
    by auto
  let ?obj = "obj_set obj k (coerce v)"
  have step: "map fst (props (foldl (\<lambda>obj (header, v). obj_set obj header (coerce v)) obj (kv # kvs)))
      = map fst (props ?obj)
        @ first_occurrences (filter (\<lambda>k. k \<notin> set (map fst (props ?obj))) (map fst kvs))"
    using Cons.IH [OF rest, of ?obj] kv by simp
  show ?case
  proof (cases "k \<in> set (map fst (props obj))")
    case True
    then show ?thesis using step kv keys_obj_set [OF k, of obj "coerce v"] by simp
  next
    case False
    have "filter (\<lambda>x. x \<notin> set (map fst (props obj) @ [k])) (map fst kvs)
        = filter (\<lambda>y. y \<noteq> k) (filter (\<lambda>x. x \<notin> set (map fst (props obj))) (map fst kvs))"
      by (auto intro: filter_cong)
    then show ?thesis using False step kv keys_obj_set [OF k, of obj "coerce v"] by simp
  qed
qed

lemma keys_build_obj:
  "''__proto__'' \<notin> set headers \<Longrightarrow> length vals = length headers \<Longrightarrow>
   map fst (props (build_obj headers vals)) = first_occurrences headers"
  using keys_assign [of "zip headers vals" empty_object]
  by (simp add: build_obj_def empty_object_def)

lemma get_assign:
  "k' \<noteq> ''__proto__'' \<Longrightarrow>
   obj_get (foldl (\<lambda>obj (header, v). obj_set obj header (coerce v)) obj kvs) k' =
     (case map_of (rev kvs) k' of Some v \<Rightarrow> Some (coerce v) | None \<Rightarrow> obj_get obj k')"
proof (induction kvs arbitrary: obj)
  case Nil
  then show ?case by simp
next
  case (Cons kv kvs)
  obtain k v where kv: "kv = (k, v)" by (cases kv)
  show ?case
    using Cons.IH [OF Cons.prems, of "obj_set obj k (coerce v)"] kv
    by (auto simp: obj_get_obj_set [OF Cons.prems] map_add_def split: option.splits)
qed

lemma map_of_rev_zip_last:
  "length vals = length headers \<Longrightarrow> j < length headers \<Longrightarrow>
   \<forall>j'. j < j' \<and> j' < length headers \<longrightarrow> headers ! j' \<noteq> headers ! j \<Longrightarrow>
   map_of (rev (zip headers vals)) (headers ! j) = Some (vals ! j)"
proof (induction headers vals arbitrary: j rule: list_induct2')
  case (4 h hs v vs)
  show ?case
  proof (cases j)
    case 0
    with "4.prems" have "\<forall>j'. j' < length hs \<longrightarrow> hs ! j' \<noteq> h" by auto
    then have "h \<notin> set hs" by (auto simp: in_set_conv_nth)
    then have "map_of (rev (zip hs vs)) h = None"
      by (auto simp: map_of_eq_None_iff dest: set_zip_leftD)
    with 0 show ?thesis by (simp add: map_add_def)
  next
    case (Suc i)
    with "4.prems" have len: "length vs = length hs" and i: "i < length hs" by auto
    have "\<forall>j'. i < j' \<and> j' < length hs \<longrightarrow> hs ! j' \<noteq> hs ! i"
    proof (intro allI impI)
      fix j' assume "i < j' \<and> j' < length hs"
      then have "j < Suc j' \<and> Suc j' < length (h # hs)" using Suc by simp
      with "4.prems"(3) have "(h # hs) ! Suc j' \<noteq> (h # hs) ! j" by blast
      then show "hs ! j' \<noteq> hs ! i" using Suc by simp
    qed
    from "4.IH" [OF len i this] Suc show ?thesis by (simp add: map_add_def)
  qed
qed simp_all

lemma get_build_obj:
  assumes "length vals = length headers" "j < length headers" "headers ! j \<noteq> ''__proto__''"
    "\<forall>j'. j < j' \<and> j' < length headers \<longrightarrow> headers ! j' \<noteq> headers ! j"
  shows "obj_get (build_obj headers vals) (headers ! j) = Some (coerce (vals ! j))"
  using get_assign [OF assms(3), of empty_object "zip headers vals"]
    map_of_rev_zip_last [OF assms(1,2,4)]
  by (simp add: build_obj_def)

lemma map_fst_insort_key:
  "map fst (insort_key (\<lambda>(k, v). f k) p ps) = insort_key f (fst p) (map fst ps)"
  by (induction ps) (auto simp: case_prod_beta)

lemma map_fst_sort_key:
  "map fst (sort_key (\<lambda>(k, v). f k) ps) = sort_key f (map fst ps)"
  by (induction ps) (auto simp: map_fst_insort_key)

lemma map_fst_filter: "map fst (filter (\<lambda>(k, v). P k) ps) = filter P (map fst ps)"
  by (induction ps) auto

lemma own_keys_eq:
  "own_keys obj =
     sort_key (digits_value 10) (filter is_array_index (map fst (props obj)))
     @ filter (\<lambda>k. \<not> is_array_index k) (map fst (props obj))"
  by (simp add: own_keys_def EnumerableOwnProperties_def map_fst_sort_key map_fst_filter)

lemma set_own_keys: "set (own_keys obj) = set (map fst (props obj))"
  by (auto simp: own_keys_eq)

section \<open>Lemmas about line endings\<close>

lemma strip_end_Nil: "strip_end P [] = []"
  by (simp add: strip_end_def)

lemma strip_end_Cons:
  "strip_end P (x # xs) = (if strip_end P xs = [] \<and> P x then [] else x # strip_end P xs)"
  by (auto simp: strip_end_def dropWhile_append)

lemma trim_strip_end: "trim s = strip_end is_white_space (dropWhile is_white_space s)"
  by (simp add: trim_def strip_end_def)

lemma to_crlf_Nil: "to_crlf [] = []"
  by (simp add: to_crlf_def)

lemma to_crlf_Cons:
  "to_crlf (c # s) = (if c = CHR 0x0A then CHR 0x0D # CHR 0x0A # to_crlf s else c # to_crlf s)"
  by (simp add: to_crlf_def)

lemma to_crlf_eq_Nil: "to_crlf s = [] \<longleftrightarrow> s = []"
  by (cases s) (simp_all add: to_crlf_Nil to_crlf_Cons)

lemma ws_CR: "is_white_space (CHR 0x0D)" and ws_LF: "is_white_space (CHR 0x0A)"
  by (simp_all add: is_white_space_def)

lemma dropWhile_to_crlf:
  "dropWhile is_white_space (to_crlf s) = to_crlf (dropWhile is_white_space s)"
  by (induction s) (auto simp: to_crlf_Nil to_crlf_Cons ws_CR ws_LF)

lemma strip_end_to_crlf:
  "strip_end is_white_space (to_crlf s) = to_crlf (strip_end is_white_space s)"
  by (induction s)
     (auto simp: to_crlf_Nil to_crlf_Cons strip_end_Nil strip_end_Cons ws_CR ws_LF to_crlf_eq_Nil)

lemma trim_to_crlf: "trim (to_crlf s) = to_crlf (trim s)"
  by (simp add: trim_strip_end dropWhile_to_crlf strip_end_to_crlf)

lemma trim_snoc_CR: "trim (x @ [CHR 0x0D]) = trim x"
proof (cases "\<forall>c \<in> set x. is_white_space c")
  case True
  then have a: "dropWhile is_white_space x = []"
    and b: "dropWhile is_white_space (x @ [CHR 0x0D]) = []"
    by (simp_all add: ws_CR)
  show ?thesis unfolding trim_def a b by (rule refl)
next
  case False
  then have "dropWhile is_white_space (x @ [CHR 0x0D]) = dropWhile is_white_space x @ [CHR 0x0D]"
    by (auto simp: dropWhile_append)
  then show ?thesis by (simp add: trim_def ws_CR)
qed

lemma split_comma_snoc_CR:
  "str_split CHR '','' (l @ [CHR 0x0D]) =
     butlast (str_split CHR '','' l) @ [last (str_split CHR '','' l) @ [CHR 0x0D]]"
proof (induction l)
  case Nil
  then show ?case by simp
next
  case (Cons c l)
  obtain f fs where s: "str_split CHR '','' l = f # fs"
    using str_split_not_Nil [of "CHR '',''" l] by (cases "str_split CHR '','' l") auto
  show ?case using Cons.IH by (cases fs) (auto simp: s)
qed

lemma cells_snoc_CR:
  "map trim (str_split CHR '','' (l @ [CHR 0x0D])) = map trim (str_split CHR '','' l)"
proof -
  let ?fs = "str_split CHR '','' l"
  have ne: "?fs \<noteq> []" by (rule str_split_not_Nil)
  have "map trim (str_split CHR '','' (l @ [CHR 0x0D])) = map trim (butlast ?fs) @ [trim (last ?fs)]"
    by (simp add: split_comma_snoc_CR trim_snoc_CR)
  also have "\<dots> = map trim (butlast ?fs @ [last ?fs])" by simp
  also have "\<dots> = map trim ?fs" using ne by simp
  finally show ?thesis .
qed

lemma split_lines_to_crlf:
  "str_split CHR 0x0A (to_crlf t) =
     map (\<lambda>l. l @ [CHR 0x0D]) (butlast (str_split CHR 0x0A t)) @ [last (str_split CHR 0x0A t)]"
proof (induction t)
  case Nil
  then show ?case by (simp add: to_crlf_Nil)
next
  case (Cons c t)
  obtain l ls where s: "str_split CHR 0x0A t = l # ls"
    using str_split_not_Nil [of "CHR 0x0A" t] by (cases "str_split CHR 0x0A t") auto
  show ?case using Cons.IH by (cases ls) (auto simp: s to_crlf_Cons)
qed

lemma cells_lines_to_crlf:
  "map (\<lambda>l. map trim (str_split CHR '','' l)) (str_split CHR 0x0A (to_crlf t)) =
   map (\<lambda>l. map trim (str_split CHR '','' l)) (str_split CHR 0x0A t)"
proof -
  let ?ls = "str_split CHR 0x0A t"
  let ?f = "\<lambda>l. map trim (str_split CHR '','' l)"
  have ne: "?ls \<noteq> []" by (rule str_split_not_Nil)
  have "map ?f (str_split CHR 0x0A (to_crlf t)) = map ?f (butlast ?ls) @ [?f (last ?ls)]"
    by (simp add: split_lines_to_crlf cells_snoc_CR comp_def)
  also have "\<dots> = map ?f (butlast ?ls @ [last ?ls])" by simp
  also have "\<dots> = map ?f ?ls" using ne by simp
  finally show ?thesis .
qed

lemma rows_loop_cong:
  "map (\<lambda>l. map trim (str_split CHR '','' l)) ls = map (\<lambda>l. map trim (str_split CHR '','' l)) ls' \<Longrightarrow>
   rows_loop headers i ls acc = rows_loop headers i ls' acc"
proof (induction ls arbitrary: ls' i acc)
  case Nil
  then show ?case by simp
next
  case (Cons l ls)
  then obtain l' ls'' where ls': "ls' = l' # ls''" by (cases ls') auto
  with Cons.prems have hd: "map trim (str_split CHR '','' l) = map trim (str_split CHR '','' l')"
    and tl: "map (\<lambda>l. map trim (str_split CHR '','' l)) ls = map (\<lambda>l. map trim (str_split CHR '','' l)) ls''"
    by auto
  show ?case using Cons.IH [OF tl] hd by (simp add: ls' Let_def)
qed

lemma csvToJson_array_to_crlf: "csvToJson_array (to_crlf s) = csvToJson_array s"
proof -
  let ?f = "\<lambda>l. map trim (str_split CHR '','' l)"
  let ?X = "str_split CHR 0x0A (to_crlf (trim s))"
  let ?L = "str_split CHR 0x0A (trim s)"
  have eq: "map ?f ?X = map ?f ?L" by (rule cells_lines_to_crlf)
  then have len: "length ?X = length ?L" by (rule map_eq_imp_length_eq)
  have neX: "?X \<noteq> []" and neL: "?L \<noteq> []" by (rule str_split_not_Nil)+
  have hd: "?f (hd ?X) = ?f (hd ?L)"
    using eq neX neL by (metis hd_map)
  have "map ?f (tl ?X) = map ?f (tl ?L)"
    using eq by (metis map_tl)
  then have loop: "rows_loop h i (tl ?X) acc = rows_loop h i (tl ?L) acc" for h i acc
    by (rule rows_loop_cong)
  show ?thesis
    by (simp add: csvToJson_array_def trim_to_crlf to_crlf_eq_Nil len hd loop Let_def)
qed

section \<open>Evaluation on concrete inputs\<close>

lemmas eval_string = trim_def is_white_space_def toLowerCase_def lower_char_def char_of_def
  bit_Suc_0_iff
lemmas eval_number = Number_def NonDecimalIntegerLiteral_def StrUnsignedDecimalLiteral_def
  is_decimal_digit_def ExponentPart_def SignedInteger_def digits_value_def digit_value_def
  all_digits_def round_number_def isNaN_def
lemmas eval_object = build_obj_def obj_set_def obj_get_def empty_object_def coerce_def
  own_keys_def EnumerableOwnProperties_def is_array_index_def
lemma replicate_two: "replicate 2 x = [x, x]"
  by (simp add: numeral_2_eq_2)

lemmas eval_json = replicate_two JSON_stringify_def SerializeJSONArray_def SerializeJSONObject_def
  QuoteJSONString_def quote_char_def Number_toString_def hex4_def show_nat.simps
lemmas eval_csv = csvToJson_def csvToJson_array_def
lemmas eval_heap = csvToJson_heap_def alloc_def heap_get_def assign_prop_def array_push_def
  JSON_stringify_heap_def

lemma lines_not_empty_input:
  "str_split CHR 0x0A (trim csv) = header # row # rows \<Longrightarrow> trim csv \<noteq> []"
  by auto

lemma csvToJson_array_lines:
  "str_split CHR 0x0A (trim csv) = header # row # rows \<Longrightarrow>
   csvToJson_array csv = rows_loop (map trim (str_split CHR '','' header)) 1 (row # rows) []"
  using lines_not_empty_input [of csv header row rows]
  by (simp add: csvToJson_array_def del: rows_loop.simps)

section \<open>The array of a successful conversion\<close>

lemma csvToJson_array_objs:
  assumes lines: "str_split CHR 0x0A (trim csv) = header # rows"
    and res: "csvToJson_array csv = Inr objs"
  shows "rows \<noteq> []"
    and "\<forall>l \<in> set rows. length (str_split CHR '','' l) = length (str_split CHR '','' header)"
    and "objs = map (\<lambda>l. build_obj (map trim (str_split CHR '','' header))
                            (map trim (str_split CHR '','' l))) rows"
proof -
  let ?hs = "map trim (str_split CHR '','' header)"
  show ne: "rows \<noteq> []"
    using res lines by (auto simp: csvToJson_array_def split: if_splits)
  then obtain r rs where rs: "rows = r # rs" by (cases rows) auto
  have loop: "rows_loop ?hs 1 rows [] = Inr objs"
    using csvToJson_array_lines [of csv header r rs] lines rs res by simp
  then have "\<exists>objs. rows_loop ?hs 1 rows [] = Inr objs" by blast
  then have ok: "\<forall>l \<in> set rows. length (str_split CHR '','' l) = length ?hs"
    by (simp only: rows_loop_Inr_iff)
  then show "\<forall>l \<in> set rows. length (str_split CHR '','' l) = length (str_split CHR '','' header)"
    by simp
  show "objs = map (\<lambda>l. build_obj ?hs (map trim (str_split CHR '','' l))) rows"
    using rows_loop_ok [OF ok, of 1 "[]"] loop by simp
qed

lemma csvToJson_array_ok:
  assumes lines: "str_split CHR 0x0A (trim csv) = header # rows"
    and ne: "rows \<noteq> []"
    and cols: "\<forall>l \<in> set rows. length (str_split CHR '','' l) = length (str_split CHR '','' header)"
  shows "csvToJson_array csv =
           Inr (map (\<lambda>l. build_obj (map trim (str_split CHR '','' header))
                            (map trim (str_split CHR '','' l))) rows)"
proof -
  let ?hs = "map trim (str_split CHR '','' header)"
  obtain r rs where rs: "rows = r # rs" using ne by (cases rows) auto
  have ok: "\<forall>l \<in> set rows. length (str_split CHR '','' l) = length ?hs"
    using cols by simp
  show ?thesis
    using csvToJson_array_lines [of csv header r rs] lines rs rows_loop_ok [OF ok, of 1 "[]"]
    by simp
qed

lemma obj_get_own_key: "obj_get obj k = Some v \<Longrightarrow> k \<in> set (own_keys obj)"
  by (auto simp: obj_get_def set_own_keys dest!: map_of_SomeD intro: rev_image_eqI)

section \<open>The shape of the serialised text\<close>

lemma SerializeJSONArray_two_spaces:
  "arr \<noteq> [] \<Longrightarrow>
   SerializeJSONArray fmt ''  '' [] arr =
     ''[\<newline>  '' @ join '',\<newline>  '' (map (SerializeJSONObject fmt ''  '' ''  '') arr) @ ''\<newline>]''"
  by (simp add: SerializeJSONArray_def Let_def)

lemma SerializeJSONObject_two_spaces:
  "SerializeJSONObject fmt ''  '' ''  '' obj =
     (if props obj = [] then ''{}''
      else ''{\<newline>    ''
           @ join '',\<newline>    ''
               (map (\<lambda>(k, v). QuoteJSONString k @ '': '' @ SerializeJSONProperty fmt v)
                  (EnumerableOwnProperties obj))
           @ ''\<newline>  }'')"
proof -
  have "EnumerableOwnProperties obj = [] \<longleftrightarrow> props obj = []"
  proof -
    have "set (map fst (EnumerableOwnProperties obj)) = set (map fst (props obj))"
      using set_own_keys [of obj] by (simp add: own_keys_def)
    then show ?thesis by (metis map_is_Nil_conv set_empty)
  qed
  then show ?thesis by (simp add: SerializeJSONObject_def Let_def)
qed

section \<open>When the conversion fails\<close>

lemma rows_loop_Inl_iff:
  "(\<exists>e. rows_loop headers i ls acc = Inl e) \<longleftrightarrow>
   (\<exists>l \<in> set ls. length (str_split CHR '','' l) \<noteq> length headers)"
proof -
  have "(\<exists>e. rows_loop headers i ls acc = Inl e) \<longleftrightarrow> \<not> (\<exists>objs. rows_loop headers i ls acc = Inr objs)"
    by (cases "rows_loop headers i ls acc") auto
  then show ?thesis by (simp only: rows_loop_Inr_iff) blast
qed

lemma csvToJson_Inl_iff: "csvToJson fmt csv = Inl e \<longleftrightarrow> csvToJson_array csv = Inl e"
  by (simp add: csvToJson_def split: sum.splits)

lemma csvToJson_array_loop:
  "trim csv \<noteq> [] \<Longrightarrow> 2 \<le> length (str_split CHR 0x0A (trim csv)) \<Longrightarrow>
   csvToJson_array csv =
     rows_loop (map trim (str_split CHR '','' (hd (str_split CHR 0x0A (trim csv))))) 1
       (tl (str_split CHR 0x0A (trim csv))) []"
  by (simp add: csvToJson_array_def Let_def)

lemma Number_empty: "Number [] = Finite 0"
  by (simp add: Number_def trim_def)

section \<open>Lemmas about the converter on a heap\<close>

lemma forEach_header_result:
  "heap_get h a = Some (ObjCell obj) \<Longrightarrow>
   forEach_header h a cols =
     Some (h[a := ObjCell (foldl (\<lambda>obj (header, v). obj_set obj header (coerce v)) obj cols)])"
proof (induction cols arbitrary: h obj)
  case Nil
  then have "h ! a = ObjCell obj" by (auto simp: heap_get_def split: if_splits)
  then have "h[a := ObjCell obj] = h" by (metis list_update_id)
  then show ?case by simp
next
  case (Cons c cols)
  obtain k v where c: "c = (k, v)" by (cases c)
  from Cons.prems have a: "a < length h" and ha: "h ! a = ObjCell obj"
    by (auto simp: heap_get_def split: if_splits)
  let ?h = "h[a := ObjCell (obj_set obj k (coerce v))]"
  have step: "assign_prop h a k (coerce v) = Some ?h"
    using Cons.prems by (simp add: assign_prop_def)
  have "heap_get ?h a = Some (ObjCell (obj_set obj k (coerce v)))"
    using a by (simp add: heap_get_def)
  from Cons.IH [OF this] show ?case by (simp add: c step)
qed

lemma read_objects_cong:
  "\<forall>r \<in> set refs. heap_get h' r = heap_get h r \<Longrightarrow> read_objects h' refs = read_objects h refs"
  by (induction refs) (auto split: option.splits cell.splits)

lemma read_objects_cells:
  "read_objects h refs = Some objs \<Longrightarrow> \<forall>r \<in> set refs. \<exists>obj. heap_get h r = Some (ObjCell obj)"
  by (induction refs arbitrary: objs) (auto split: option.splits cell.splits)

lemma read_objects_snoc:
  "read_objects h refs = Some objs \<Longrightarrow> heap_get h r = Some (ObjCell obj) \<Longrightarrow>
   read_objects h (refs @ [r]) = Some (objs @ [obj])"
  by (induction refs arbitrary: objs) (auto split: option.splits cell.splits)

lemma rows_loop_heap_result:
  assumes "heap_get h a = Some (ArrCell refs)" and "read_objects h refs = Some acc"
  shows "case rows_loop headers i ls acc of
           Inl e \<Rightarrow> fst (rows_loop_heap headers i ls a h) = Some (Inl e)
         | Inr objs \<Rightarrow>
             fst (rows_loop_heap headers i ls a h) = Some (Inr ())
             \<and> (\<exists>refs'. heap_get (snd (rows_loop_heap headers i ls a h)) a = Some (ArrCell refs')
                   \<and> read_objects (snd (rows_loop_heap headers i ls a h)) refs' = Some objs)"
  using assms
proof (induction ls arbitrary: h refs acc i)
  case Nil
  then show ?case by auto
next
  case (Cons l ls)
  let ?vals = "map trim (str_split CHR '','' l)"
  show ?case
  proof (cases "length ?vals \<noteq> length headers")
    case True
    then show ?thesis by (simp add: Let_def)
  next
    case False
    let ?o = "length h"
    let ?B = "build_obj headers ?vals"
    let ?h1 = "h @ [ObjCell empty_object]"
    let ?h2 = "?h1[?o := ObjCell ?B]"
    let ?h3 = "?h2[a := ArrCell (refs @ [?o])]"
    from Cons.prems(1) have a: "a < length h" and ha: "h ! a = ArrCell refs"
      by (auto simp: heap_get_def split: if_splits)
    have g1: "heap_get ?h1 ?o = Some (ObjCell empty_object)" by (simp add: heap_get_def)
    have fe: "forEach_header ?h1 ?o (zip headers ?vals) = Some ?h2"
      using forEach_header_result [OF g1, of "zip headers ?vals"] by (simp add: build_obj_def)
    have g2: "heap_get ?h2 a = Some (ArrCell refs)"
      using a ha by (simp add: heap_get_def nth_append)
    have push: "array_push ?h2 a ?o = Some ?h3" using g2 by (simp add: array_push_def)
    have unfold: "rows_loop_heap headers i (l # ls) a h = rows_loop_heap headers (i + 1) ls a ?h3"
      using False fe push by (simp add: Let_def alloc_def)
    have g3: "heap_get ?h3 a = Some (ArrCell (refs @ [?o]))"
      using a by (simp add: heap_get_def)
    have old: "\<forall>r \<in> set refs. heap_get ?h3 r = heap_get h r"
    proof
      fix r assume r: "r \<in> set refs"
      from read_objects_cells [OF Cons.prems(2)] r obtain obj where "heap_get h r = Some (ObjCell obj)"
        by blast
      then have "r < length h" "h ! r = ObjCell obj" by (auto simp: heap_get_def split: if_splits)
      then have "r \<noteq> a" using ha by auto
      with \<open>r < length h\<close> show "heap_get ?h3 r = heap_get h r"
        by (simp add: heap_get_def nth_append)
    qed
    have ro: "read_objects ?h3 refs = Some acc"
      using read_objects_cong [OF old] Cons.prems(2) by simp
    have go: "heap_get ?h3 ?o = Some (ObjCell ?B)"
      using a by (simp add: heap_get_def)
    have r3: "read_objects ?h3 (refs @ [?o]) = Some (acc @ [?B])"
      by (rule read_objects_snoc [OF ro go])
    have pure: "rows_loop headers i (l # ls) acc = rows_loop headers (i + 1) ls (acc @ [?B])"
      using False by (simp add: Let_def)
    show ?thesis unfolding unfold pure by (rule Cons.IH [OF g3 r3])
  qed
qed

lemma assign_prop_frame:
  "assign_prop h b key v = Some h' \<Longrightarrow> n \<le> b \<Longrightarrow> take n h' = take n h \<and> length h' = length h"
  by (auto simp: assign_prop_def split: option.splits cell.splits)

lemma forEach_header_frame:
  "forEach_header h b cols = Some h' \<Longrightarrow> n \<le> b \<Longrightarrow> take n h' = take n h \<and> length h' = length h"
proof (induction cols arbitrary: h)
  case Nil
  then show ?case by simp
next
  case (Cons c cols)
  obtain k v where c: "c = (k, v)" by (cases c)
  from Cons.prems(1) obtain h1 where s: "assign_prop h b k (coerce v) = Some h1"
    and r: "forEach_header h1 b cols = Some h'"
    by (auto simp: c split: option.splits)
  from assign_prop_frame [OF s Cons.prems(2)] Cons.IH [OF r Cons.prems(2)] show ?case by simp
qed

lemma array_push_frame:
  "array_push h b r = Some h' \<Longrightarrow> n \<le> b \<Longrightarrow> take n h' = take n h \<and> length h' = length h"
  by (auto simp: array_push_def split: option.splits cell.splits)

lemma rows_loop_heap_frame:
  "n \<le> a \<Longrightarrow> n \<le> length h \<Longrightarrow> take n (snd (rows_loop_heap headers i ls a h)) = take n h"
proof (induction ls arbitrary: h i)
  case Nil
  then show ?case by simp
next
  case (Cons l ls)
  let ?vals = "map trim (str_split CHR '','' l)"
  let ?h1 = "h @ [ObjCell empty_object]"
  show ?case
  proof (cases "length ?vals \<noteq> length headers")
    case True
    then show ?thesis by (simp add: Let_def)
  next
    case ok: False
    have t1: "take n ?h1 = take n h" using Cons.prems(2) by simp
    show ?thesis
    proof (cases "forEach_header ?h1 (length h) (zip headers ?vals)")
      case None
      then show ?thesis using ok t1 by (simp add: Let_def alloc_def)
    next
      case (Some h2)
      from forEach_header_frame [OF Some Cons.prems(2)]
      have t2: "take n h2 = take n ?h1" and l2: "length h2 = length ?h1" by simp_all
      show ?thesis
      proof (cases "array_push h2 a (length h)")
        case None
        then show ?thesis using ok Some t1 t2 by (simp add: Let_def alloc_def)
      next
        case (Some h3)
        from array_push_frame [OF Some Cons.prems(1)]
        have t3: "take n h3 = take n h2" and l3: "length h3 = length h2" by simp_all
        have "n \<le> length h3" using l3 l2 Cons.prems(2) by simp
        from Cons.IH [OF Cons.prems(1) this, of "i + 1"] show ?thesis
          using ok \<open>forEach_header ?h1 (length h) (zip headers ?vals) = Some h2\<close> Some t1 t2 t3
          by (simp add: Let_def alloc_def)
      qed
    qed
  qed
qed

lemma csvToJson_heap_result: "fst (csvToJson_heap fmt h csv) = Some (csvToJson fmt csv)"
proof (cases "trim csv = [] \<or> length (str_split CHR 0x0A (trim csv)) < 2")
  case True
  then show ?thesis
    by (auto simp: csvToJson_heap_def csvToJson_def csvToJson_array_def Let_def)
next
  case False
  let ?lines = "str_split CHR 0x0A (trim csv)"
  let ?hs = "map trim (str_split CHR '','' (hd ?lines))"
  let ?a = "length h"
  let ?h1 = "h @ [ArrCell []]"
  let ?run = "rows_loop_heap ?hs 1 (tl ?lines) ?a ?h1"
  have arr: "csvToJson_array csv = rows_loop ?hs 1 (tl ?lines) []"
    using False by (simp add: csvToJson_array_def Let_def)
  have heap: "csvToJson_heap fmt h csv =
      (case ?run of
         (None, h2) \<Rightarrow> (None, h2)
       | (Some (Inl e), h2) \<Rightarrow> (Some (Inl e), h2)
       | (Some (Inr u), h2) \<Rightarrow> (map_option Inr (JSON_stringify_heap fmt h2 ?a 2), h2))"
    using False by (simp add: csvToJson_heap_def Let_def alloc_def)
  have g: "heap_get ?h1 ?a = Some (ArrCell [])" by (simp add: heap_get_def)
  have r: "read_objects ?h1 [] = Some []" by simp
  note res = rows_loop_heap_result [OF g r, of ?hs 1 "tl ?lines"]
  show ?thesis
  proof (cases "rows_loop ?hs 1 (tl ?lines) []")
    case (Inl e)
    have p: "csvToJson fmt csv = Inl e" unfolding csvToJson_def arr Inl by simp
    from res Inl have "fst ?run = Some (Inl e)" by simp
    then obtain h2 where run: "?run = (Some (Inl e), h2)" by (cases ?run) auto
    show ?thesis unfolding heap run p by simp
  next
    case (Inr objs)
    have p: "csvToJson fmt csv = Inr (JSON_stringify fmt objs 2)"
      unfolding csvToJson_def arr Inr by simp
    from res Inr obtain refs' where f: "fst ?run = Some (Inr ())"
      and ga: "heap_get (snd ?run) ?a = Some (ArrCell refs')"
      and ro: "read_objects (snd ?run) refs' = Some objs" by auto
    from f obtain h2 where run: "?run = (Some (Inr ()), h2)" by (cases ?run) auto
    have "JSON_stringify_heap fmt h2 ?a 2 = Some (JSON_stringify fmt objs 2)"
      using ga ro unfolding run by (simp add: JSON_stringify_heap_def)
    then show ?thesis unfolding heap run p by simp
  qed
qed

lemma csvToJson_heap_frame: "take (length h) (snd (csvToJson_heap fmt h csv)) = h"
proof (cases "trim csv = [] \<or> length (str_split CHR 0x0A (trim csv)) < 2")
  case True
  then show ?thesis by (auto simp: csvToJson_heap_def Let_def)
next
  case False
  let ?lines = "str_split CHR 0x0A (trim csv)"
  let ?hs = "map trim (str_split CHR '','' (hd ?lines))"
  let ?run = "rows_loop_heap ?hs 1 (tl ?lines) (length h) (h @ [ArrCell []])"
  have "snd (csvToJson_heap fmt h csv) = snd ?run"
    using False
    by (cases ?run) (auto simp: csvToJson_heap_def Let_def alloc_def split: option.splits sum.splits)
  moreover have "take (length h) (snd ?run) = take (length h) (h @ [ArrCell []])"
    by (rule rows_loop_heap_frame) simp_all
  ultimately show ?thesis by simp
qed

text \<open>
  The steps themselves can change a cell that was there before: the frame property of the
  converter rests on its applying them only to the cells it has allocated.
\<close>

lemma assign_prop_changes_cell:
  "assign_prop [ObjCell empty_object] 0 ''a'' JSNull
     = Some [ObjCell \<lparr>has_prototype = True, props = [(''a'', JSNull)]\<rparr>]"
  by (simp add: assign_prop_def heap_get_def obj_set_def empty_object_def)

lemma array_push_changes_cell: "array_push [ArrCell []] 0 7 = Some [ArrCell [7]]"
  by (simp add: array_push_def heap_get_def)

section \<open>The properties of the specification\<close>

text \<open>
  C4. When a data row splits into a number of fields other than the header's, the conversion
  fails at the first such row with an error carrying the row's number counted from 1 with
  the header as row 1 (\<open>pre\<close> are the data rows before it, so the number is
  \<open>length pre + 2\<close>), the number of fields found and the number expected; no JSON text is
  returned, whatever the rows after it are.
\<close>

theorem column_mismatch_reported:
  assumes lines: "str_split CHR 0x0A (trim csv) = header # pre @ row # post"
    and pre: "\<forall>l \<in> set pre. length (str_split CHR '','' l) = length (str_split CHR '','' header)"
    and row: "length (str_split CHR '','' row) \<noteq> length (str_split CHR '','' header)"
  shows "csvToJson fmt csv =
           Inl (ColumnMismatch (length pre + 2) (length (str_split CHR '','' row))
                  (length (str_split CHR '','' header)))"
proof -
  let ?hs = "map trim (str_split CHR '','' header)"
  obtain r rs where rs: "pre @ row # post = r # rs" by (cases pre) auto
  have "csvToJson_array csv = rows_loop ?hs 1 (pre @ row # post) []"
    using csvToJson_array_lines [of csv header r rs] lines rs by simp
  also have "\<dots> = Inl (ColumnMismatch (1 + length pre + 1) (length (str_split CHR '','' row)) (length ?hs))"
    by (rule rows_loop_fail) (use pre row in simp_all)
  finally show ?thesis by (simp add: csvToJson_def)
qed

theorem column_mismatch_reported_witness:
  "csvToJson (\<lambda>v. []) ''a,b\<newline>1,2,3'' = Inl (ColumnMismatch 2 3 2)
   \<and> error_message (ColumnMismatch 2 3 2) = ''Row 2 has 3 columns, but header has 2 columns''"
proof -
  have l: "str_split CHR 0x0A (trim ''a,b\<newline>1,2,3'') = ''a,b'' # [] @ ''1,2,3'' # []"
    by (simp add: eval_string)
  have "csvToJson (\<lambda>v. []) ''a,b\<newline>1,2,3'' =
          Inl (ColumnMismatch (length ([] :: string list) + 2) (length (str_split CHR '','' ''1,2,3''))
                 (length (str_split CHR '','' ''a,b'')))"
    by (rule column_mismatch_reported [OF l]) simp_all
  then show ?thesis by (simp add: show_nat.simps)
qed

text \<open>
  Valid input. When the trimmed input is a header line followed by at least one data line,
  and every data line splits into as many fields as the header, the conversion succeeds and
  the array it serialises holds exactly one object per data line, none dropped. When no
  trimmed header name is \<^verbatim>\<open>__proto__\<close>, the keys of every object are, as a set, the
  trimmed header names. The property is stated on the array handed to
  \<^verbatim>\<open>JSON.stringify\<close>: its length and the keys of its objects are those of the text
  parsed back.
\<close>

lemma valid_csv_converts:
  assumes lines: "str_split CHR 0x0A (trim csv) = header # rows"
    and ne: "rows \<noteq> []"
    and cols: "\<forall>l \<in> set rows. length (str_split CHR '','' l) = length (str_split CHR '','' header)"
  shows "\<exists>objs. csvToJson_array csv = Inr objs
           \<and> csvToJson fmt csv = Inr (JSON_stringify fmt objs 2)
           \<and> length objs = length rows
           \<and> (''__proto__'' \<notin> set (map trim (str_split CHR '','' header)) \<longrightarrow>
                (\<forall>obj \<in> set objs. set (own_keys obj) = set (map trim (str_split CHR '','' header))))"
proof -
  let ?hs = "map trim (str_split CHR '','' header)"
  let ?objs = "map (\<lambda>l. build_obj ?hs (map trim (str_split CHR '','' l))) rows"
  have arr: "csvToJson_array csv = Inr ?objs"
    by (rule csvToJson_array_ok [OF lines ne cols])
  have out: "csvToJson fmt csv = Inr (JSON_stringify fmt ?objs 2)"
    by (simp add: csvToJson_def arr)
  have keys: "set (own_keys obj) = set ?hs" if np: "''__proto__'' \<notin> set ?hs" and obj: "obj \<in> set ?objs" for obj
  proof -
    from obj obtain l where l: "l \<in> set rows" and o: "obj = build_obj ?hs (map trim (str_split CHR '','' l))"
      by auto
    have len: "length (map trim (str_split CHR '','' l)) = length ?hs" using cols l by simp
    show ?thesis
      unfolding o set_own_keys keys_build_obj [OF np len] by (rule set_first_occurrences)
  qed
  show ?thesis using arr out keys by (intro exI [of _ ?objs]) simp
qed

lemma valid_csv_converts_example:
  "csvToJson_array ''name,age\<newline>John Doe,28\<newline>Jane Smith,34'' =
     Inr [\<lparr>has_prototype = True, props = [(''name'', JSString ''John Doe''), (''age'', JSNumber (Finite 28))]\<rparr>,
          \<lparr>has_prototype = True, props = [(''name'', JSString ''Jane Smith''), (''age'', JSNumber (Finite 34))]\<rparr>]
   \<and> set (own_keys \<lparr>has_prototype = True, props = [(''name'', JSString ''John Doe''), (''age'', JSNumber (Finite 28))]\<rparr>)
       = {''name'', ''age''}
   \<and> set (own_keys \<lparr>has_prototype = True, props = [(''name'', JSString ''Jane Smith''), (''age'', JSNumber (Finite 34))]\<rparr>)
       = {''name'', ''age''}"
proof -
  let ?csv = "''name,age\<newline>John Doe,28\<newline>Jane Smith,34''"
  let ?o1 = "\<lparr>has_prototype = True, props = [(''name'', JSString ''John Doe''), (''age'', JSNumber (Finite 28))]\<rparr>"
  let ?o2 = "\<lparr>has_prototype = True, props = [(''name'', JSString ''Jane Smith''), (''age'', JSNumber (Finite 34))]\<rparr>"
  have l: "str_split CHR 0x0A (trim ?csv) = ''name,age'' # [''John Doe,28'', ''Jane Smith,34'']"
    by (simp add: eval_string)
  have hs: "map trim (str_split CHR '','' ''name,age'') = [''name'', ''age'']"
    by (simp add: eval_string)
  have c: "\<forall>l \<in> set [''John Doe,28'', ''Jane Smith,34''].
             length (str_split CHR '','' l) = length (str_split CHR '','' ''name,age'')"
    by simp
  have e: "csvToJson_array ?csv = Inr [?o1, ?o2]"
    by (simp add: eval_csv eval_object eval_number eval_string)
  from valid_csv_converts [OF l _ c, of "\<lambda>v. []"] hs e
  have "set (own_keys ?o1) = {''name'', ''age''} \<and> set (own_keys ?o2) = {''name'', ''age''}"
    by auto
  with e show ?thesis by simp
qed

text \<open>
  C1. A valid input converts to one object per data row whose keys are the trimmed header
  names. The rows are never dropped (\<open>valid_csv_converts\<close>), but the keys are not always
  the header names: for the header line \<^verbatim>\<open>__proto__\<close> and the data line \<^verbatim>\<open>1\<close>, a valid
  input of one column and one row, the assignment \<^verbatim>\<open>obj[header] = value\<close> reaches the
  setter inherited from \<^verbatim>\<open>Object.prototype\<close>, which ignores the number: the object of the
  row has no key at all and the text returned is an array holding \<^verbatim>\<open>{}\<close>.
\<close>

theorem proto_header_dropped:
  "str_split CHR 0x0A (trim ''__proto__\<newline>1'') = [''__proto__'', ''1'']
   \<and> length (str_split CHR '','' ''1'') = length (str_split CHR '','' ''__proto__'')
   \<and> map trim (str_split CHR '','' ''__proto__'') = [''__proto__'']
   \<and> csvToJson_array ''__proto__\<newline>1'' = Inr [empty_object]
   \<and> own_keys empty_object = []
   \<and> csvToJson (\<lambda>v. []) ''__proto__\<newline>1'' = Inr ''[\<newline>  {}\<newline>]''"
  by (simp add: eval_csv eval_object eval_number eval_string eval_json)

text \<open>
  Duplicate header names. When the trimmed header names repeat, the object of every data
  row has a field for each name other than \<^verbatim>\<open>__proto__\<close>, and the field holds the coerced
  cell of the last (rightmost) column with that name: \<open>j\<close> is a column whose name does not
  occur again to its right, \<open>i\<close> a data row.
\<close>

lemma duplicate_header_last_wins:
  assumes res: "csvToJson_array csv = Inr objs"
    and lines: "str_split CHR 0x0A (trim csv) = header # rows"
    and i: "i < length rows"
    and j: "j < length (str_split CHR '','' header)"
    and last: "\<forall>j'. j < j' \<and> j' < length (str_split CHR '','' header) \<longrightarrow>
                 trim (str_split CHR '','' header ! j') \<noteq> trim (str_split CHR '','' header ! j)"
    and np: "trim (str_split CHR '','' header ! j) \<noteq> ''__proto__''"
  shows "i < length objs
         \<and> obj_get (objs ! i) (trim (str_split CHR '','' header ! j))
             = Some (coerce (trim (str_split CHR '','' (rows ! i) ! j)))
         \<and> trim (str_split CHR '','' header ! j) \<in> set (own_keys (objs ! i))"
proof -
  let ?hs = "map trim (str_split CHR '','' header)"
  let ?vs = "map trim (str_split CHR '','' (rows ! i))"
  note facts = csvToJson_array_objs [OF lines res]
  have objs: "objs = map (\<lambda>l. build_obj ?hs (map trim (str_split CHR '','' l))) rows"
    by (rule facts(3))
  have li: "i < length objs" using i objs by simp
  have oi: "objs ! i = build_obj ?hs ?vs" using i objs by simp
  have len: "length ?vs = length ?hs" using facts(2) i by simp
  have j': "j < length ?hs" using j by simp
  have hj: "?hs ! j = trim (str_split CHR '','' header ! j)" using j by simp
  have vj: "?vs ! j = trim (str_split CHR '','' (rows ! i) ! j)" using j len by simp
  have last': "\<forall>j'. j < j' \<and> j' < length ?hs \<longrightarrow> ?hs ! j' \<noteq> ?hs ! j"
    using last j by simp
  have np': "?hs ! j \<noteq> ''__proto__''" using np hj by simp
  have get: "obj_get (objs ! i) (?hs ! j) = Some (coerce (?vs ! j))"
    unfolding oi by (rule get_build_obj [OF len j' np' last'])
  then have "?hs ! j \<in> set (own_keys (objs ! i))" by (rule obj_get_own_key)
  with li get show ?thesis unfolding hj vj by simp
qed

lemma duplicate_header_last_wins_example:
  "csvToJson_array ''a,b,a\<newline>1,2,3'' =
     Inr [\<lparr>has_prototype = True, props = [(''a'', JSNumber (Finite 3)), (''b'', JSNumber (Finite 2))]\<rparr>]
   \<and> obj_get \<lparr>has_prototype = True, props = [(''a'', JSNumber (Finite 3)), (''b'', JSNumber (Finite 2))]\<rparr> ''a''
       = Some (JSNumber (Finite 3))
   \<and> ''a'' \<in> set (own_keys \<lparr>has_prototype = True, props = [(''a'', JSNumber (Finite 3)), (''b'', JSNumber (Finite 2))]\<rparr>)"
proof -
  let ?csv = "''a,b,a\<newline>1,2,3''"
  let ?obj = "\<lparr>has_prototype = True, props = [(''a'', JSNumber (Finite 3)), (''b'', JSNumber (Finite 2))]\<rparr>"
  have l: "str_split CHR 0x0A (trim ?csv) = ''a,b,a'' # [''1,2,3'']"
    by (simp add: eval_string)
  have h: "str_split CHR '','' ''a,b,a'' = [''a'', ''b'', ''a'']"
    and r: "str_split CHR '','' ''1,2,3'' = [''1'', ''2'', ''3'']" by simp_all
  have t: "trim ''a'' = ''a''" "trim ''b'' = ''b''" "trim ''3'' = ''3''" by (simp_all add: eval_string)
  have c: "coerce ''3'' = JSNumber (Finite 3)" by (simp add: coerce_def eval_number eval_string)
  have e: "csvToJson_array ?csv = Inr [?obj]"
    by (simp add: eval_csv eval_object eval_number eval_string)
  have "obj_get ([?obj] ! 0) ''a'' = Some (JSNumber (Finite 3)) \<and> ''a'' \<in> set (own_keys ([?obj] ! 0))"
    using duplicate_header_last_wins [OF e l, of 0 2] by (simp add: h r t c)
  with e show ?thesis by simp
qed

text \<open>
  C7. With duplicate header names every record has a field for each name, holding the value
  of the last column with that name. This holds for every name but one
  (\<open>duplicate_header_last_wins\<close>): for the header \<^verbatim>\<open>__proto__,__proto__\<close> and the row
  \<^verbatim>\<open>1,2\<close> both assignments go to the setter inherited from \<^verbatim>\<open>Object.prototype\<close>, which
  ignores the numbers, and the record holds no value under that name, so not the value
  \<open>2\<close> of the last column.
\<close>

theorem duplicate_proto_header_dropped:
  "str_split CHR 0x0A (trim ''__proto__,__proto__\<newline>1,2'') = [''__proto__,__proto__'', ''1,2'']
   \<and> map trim (str_split CHR '','' ''__proto__,__proto__'') = [''__proto__'', ''__proto__'']
   \<and> map trim (str_split CHR '','' ''1,2'') = [''1'', ''2'']
   \<and> csvToJson_array ''__proto__,__proto__\<newline>1,2'' = Inr [empty_object]
   \<and> obj_get empty_object ''__proto__'' = None
   \<and> coerce ''2'' = JSNumber (Finite 2)
   \<and> csvToJson (\<lambda>v. []) ''__proto__,__proto__\<newline>1,2'' = Inr ''[\<newline>  {}\<newline>]''"
  by (simp add: eval_csv eval_object eval_number eval_string eval_json)

text \<open>
  C6, amended. On success the text returned is the array of row objects pretty-printed with
  two spaces of indentation: the objects one per entry at indentation two, each either
  \<^verbatim>\<open>{}\<close> or its fields at indentation four as the quoted key, a colon, a space and the
  value as \<open>SerializeJSONProperty\<close> writes it (a number bare, \<^verbatim>\<open>true\<close>, \<^verbatim>\<open>false\<close>,
  \<^verbatim>\<open>null\<close>, a string quoted and escaped). When no header name is \<^verbatim>\<open>__proto__\<close>, the
  keys of every object come in this order: the names that are array indices in ascending
  numeric order, then the other names in the order of their first occurrence in the header.
\<close>

theorem output_is_pretty_printed:
  assumes out: "csvToJson fmt csv = Inr out"
    and lines: "str_split CHR 0x0A (trim csv) = header # rows"
  shows "\<exists>objs. csvToJson_array csv = Inr objs
           \<and> objs = map (\<lambda>l. build_obj (map trim (str_split CHR '','' header))
                                 (map trim (str_split CHR '','' l))) rows
           \<and> out = ''[\<newline>  '' @ join '',\<newline>  '' (map (SerializeJSONObject fmt ''  '' ''  '') objs) @ ''\<newline>]''
           \<and> (\<forall>obj \<in> set objs.
                 SerializeJSONObject fmt ''  '' ''  '' obj =
                   (if props obj = [] then ''{}''
                    else ''{\<newline>    ''
                         @ join '',\<newline>    ''
                             (map (\<lambda>(k, v). QuoteJSONString k @ '': '' @ SerializeJSONProperty fmt v)
                                (EnumerableOwnProperties obj))
                         @ ''\<newline>  }''))
           \<and> (''__proto__'' \<notin> set (map trim (str_split CHR '','' header)) \<longrightarrow>
                (\<forall>obj \<in> set objs.
                   own_keys obj =
                     sort_key (digits_value 10)
                       (filter is_array_index
                          (first_occurrences (map trim (str_split CHR '','' header))))
                     @ filter (\<lambda>k. \<not> is_array_index k)
                         (first_occurrences (map trim (str_split CHR '','' header)))))"
proof -
  let ?hs = "map trim (str_split CHR '','' header)"
  from out obtain objs where arr: "csvToJson_array csv = Inr objs"
    and o: "out = JSON_stringify fmt objs 2"
    by (auto simp: csvToJson_def split: sum.splits)
  note facts = csvToJson_array_objs [OF lines arr]
  have objs: "objs = map (\<lambda>l. build_obj ?hs (map trim (str_split CHR '','' l))) rows"
    by (rule facts(3))
  have ne: "objs \<noteq> []" using facts(1) objs by simp
  have shape: "out = ''[\<newline>  '' @ join '',\<newline>  '' (map (SerializeJSONObject fmt ''  '' ''  '') objs) @ ''\<newline>]''"
    unfolding o JSON_stringify_def using SerializeJSONArray_two_spaces [OF ne, of fmt]
    by (simp add: replicate_two)
  have order: "own_keys obj =
      sort_key (digits_value 10) (filter is_array_index (first_occurrences ?hs))
      @ filter (\<lambda>k. \<not> is_array_index k) (first_occurrences ?hs)"
    if np: "''__proto__'' \<notin> set ?hs" and obj: "obj \<in> set objs" for obj
  proof -
    from obj objs obtain l where l: "l \<in> set rows"
      and ob: "obj = build_obj ?hs (map trim (str_split CHR '','' l))" by auto
    have len: "length (map trim (str_split CHR '','' l)) = length ?hs" using facts(2) l by simp
    show ?thesis unfolding own_keys_eq ob keys_build_obj [OF np len] by (rule refl)
  qed
  show ?thesis
    using arr objs shape order SerializeJSONObject_two_spaces [of fmt]
    by (intro exI [of _ objs]) simp
qed

theorem output_is_pretty_printed_witness:
  "csvToJson (\<lambda>v. []) ''name,7,ok,2\<newline>Ann,x,TRUE,'' =
     Inr (''[\<newline>  {\<newline>    '' @ [CHR 0x22] @ ''2'' @ [CHR 0x22] @ '': null,\<newline>    ''
            @ [CHR 0x22] @ ''7'' @ [CHR 0x22] @ '': '' @ [CHR 0x22] @ ''x'' @ [CHR 0x22] @ '',\<newline>    ''
            @ [CHR 0x22] @ ''name'' @ [CHR 0x22] @ '': '' @ [CHR 0x22] @ ''Ann'' @ [CHR 0x22] @ '',\<newline>    ''
            @ [CHR 0x22] @ ''ok'' @ [CHR 0x22] @ '': true\<newline>  }\<newline>]'')
   \<and> own_keys (build_obj [''name'', ''7'', ''ok'', ''2''] [''Ann'', ''x'', ''TRUE'', '''']) = [''2'', ''7'', ''name'', ''ok'']"
proof -
  let ?csv = "''name,7,ok,2\<newline>Ann,x,TRUE,''"
  let ?obj = "build_obj [''name'', ''7'', ''ok'', ''2''] [''Ann'', ''x'', ''TRUE'', '''']"
  have l: "str_split CHR 0x0A (trim ?csv) = ''name,7,ok,2'' # [''Ann,x,TRUE,'']"
    by (simp add: eval_string)
  have hs: "map trim (str_split CHR '','' ''name,7,ok,2'') = [''name'', ''7'', ''ok'', ''2'']"
    and vs: "map trim (str_split CHR '','' ''Ann,x,TRUE,'') = [''Ann'', ''x'', ''TRUE'', '''']"
    by (simp_all add: eval_string)
  have idx: "is_array_index ''7''" "is_array_index ''2''" "\<not> is_array_index ''name''" "\<not> is_array_index ''ok''"
    by (simp_all add: is_array_index_def eval_number)
  have e: "csvToJson (\<lambda>v. []) ?csv =
     Inr (''[\<newline>  {\<newline>    '' @ [CHR 0x22] @ ''2'' @ [CHR 0x22] @ '': null,\<newline>    ''
            @ [CHR 0x22] @ ''7'' @ [CHR 0x22] @ '': '' @ [CHR 0x22] @ ''x'' @ [CHR 0x22] @ '',\<newline>    ''
            @ [CHR 0x22] @ ''name'' @ [CHR 0x22] @ '': '' @ [CHR 0x22] @ ''Ann'' @ [CHR 0x22] @ '',\<newline>    ''
            @ [CHR 0x22] @ ''ok'' @ [CHR 0x22] @ '': true\<newline>  }\<newline>]'')"
    by (simp add: eval_csv eval_object eval_number eval_string eval_json)
  from output_is_pretty_printed [OF e l] hs vs
  have "own_keys ?obj = sort_key (digits_value 10) (filter is_array_index (first_occurrences [''name'', ''7'', ''ok'', ''2'']))
      @ filter (\<lambda>k. \<not> is_array_index k) (first_occurrences [''name'', ''7'', ''ok'', ''2''])"
    by auto
  then have "own_keys ?obj = [''2'', ''7'', ''name'', ''ok'']"
    by (simp add: idx digits_value_def digit_value_def)
  with e show ?thesis by simp
qed

text \<open>
  C6 as stated fails on the key order: for the header \<^verbatim>\<open>b,1\<close> the object lists the key
  \<^verbatim>\<open>1\<close> before \<^verbatim>\<open>b\<close>, since an object enumerates its array-index keys first.
\<close>

theorem key_order_counterexample:
  "str_split CHR 0x0A (trim ''b,1\<newline>x,y'') = [''b,1'', ''x,y'']
   \<and> map trim (str_split CHR '','' ''b,1'') = [''b'', ''1'']
   \<and> csvToJson_array ''b,1\<newline>x,y'' =
       Inr [\<lparr>has_prototype = True, props = [(''b'', JSString ''x''), (''1'', JSString ''y'')]\<rparr>]
   \<and> own_keys \<lparr>has_prototype = True, props = [(''b'', JSString ''x''), (''1'', JSString ''y'')]\<rparr>
       = [''1'', ''b'']
   \<and> csvToJson (\<lambda>v. []) ''b,1\<newline>x,y'' =
       Inr (''[\<newline>  {\<newline>    '' @ [CHR 0x22] @ ''1'' @ [CHR 0x22] @ '': '' @ [CHR 0x22] @ ''y'' @ [CHR 0x22] @ '',\<newline>    ''
              @ [CHR 0x22] @ ''b'' @ [CHR 0x22] @ '': '' @ [CHR 0x22] @ ''x'' @ [CHR 0x22] @ ''\<newline>  }\<newline>]'')"
  by (simp add: eval_csv eval_object eval_number eval_string eval_json)

text \<open>
  C3. The conversion fails exactly in three cases, the earlier one deciding: the trimmed
  input is empty (\<open>EmptyInput\<close>); it is not empty and splits on the line feed into fewer
  than two lines (\<open>InsufficientRows\<close>); there are two lines or more and some data line
  splits on commas into a number of fields other than the header's (\<open>ColumnMismatch\<close>).
  On every other input it returns the JSON text of the array of row objects.
\<close>

theorem conversion_fails_iff:
  "(csvToJson fmt csv = Inl EmptyInput \<longleftrightarrow> trim csv = [])
   \<and> (csvToJson fmt csv = Inl InsufficientRows \<longleftrightarrow>
        trim csv \<noteq> [] \<and> length (str_split CHR 0x0A (trim csv)) < 2)
   \<and> ((\<exists>r n m. csvToJson fmt csv = Inl (ColumnMismatch r n m)) \<longleftrightarrow>
        trim csv \<noteq> [] \<and> 2 \<le> length (str_split CHR 0x0A (trim csv))
        \<and> (\<exists>l \<in> set (tl (str_split CHR 0x0A (trim csv))).
              length (str_split CHR '','' l)
                \<noteq> length (str_split CHR '','' (hd (str_split CHR 0x0A (trim csv))))))
   \<and> ((\<exists>objs. csvToJson_array csv = Inr objs \<and> csvToJson fmt csv = Inr (JSON_stringify fmt objs 2)) \<longleftrightarrow>
        trim csv \<noteq> [] \<and> 2 \<le> length (str_split CHR 0x0A (trim csv))
        \<and> (\<forall>l \<in> set (tl (str_split CHR 0x0A (trim csv))).
              length (str_split CHR '','' l)
                = length (str_split CHR '','' (hd (str_split CHR 0x0A (trim csv))))))"
proof (cases "trim csv = []")
  case True
  then have "csvToJson_array csv = Inl EmptyInput" by (simp add: csvToJson_array_def)
  then show ?thesis using True by (simp add: csvToJson_def)
next
  case ne: False
  let ?lines = "str_split CHR 0x0A (trim csv)"
  let ?hs = "map trim (str_split CHR '','' (hd ?lines))"
  show ?thesis
  proof (cases "length ?lines < 2")
    case True
    then have "csvToJson_array csv = Inl InsufficientRows"
      using ne by (simp add: csvToJson_array_def)
    then show ?thesis using ne True by (simp add: csvToJson_def)
  next
    case False
    then have two: "2 \<le> length ?lines" by simp
    have loop: "csvToJson_array csv = rows_loop ?hs 1 (tl ?lines) []"
      by (rule csvToJson_array_loop [OF ne two])
    have kinds: "csvToJson_array csv \<noteq> Inl EmptyInput" "csvToJson_array csv \<noteq> Inl InsufficientRows"
      using rows_loop_Inl_kind [of ?hs 1 "tl ?lines" "[]"] unfolding loop by auto
    have mism: "(\<exists>r n m. csvToJson_array csv = Inl (ColumnMismatch r n m)) \<longleftrightarrow>
        (\<exists>l \<in> set (tl ?lines). length (str_split CHR '','' l) \<noteq> length (str_split CHR '','' (hd ?lines)))"
    proof -
      have "(\<exists>r n m. csvToJson_array csv = Inl (ColumnMismatch r n m)) \<longleftrightarrow>
            (\<exists>e. rows_loop ?hs 1 (tl ?lines) [] = Inl e)"
        unfolding loop using rows_loop_Inl_kind [of ?hs 1 "tl ?lines" "[]"] by blast
      then show ?thesis by (simp only: rows_loop_Inl_iff) simp
    qed
    have succ: "(\<exists>objs. csvToJson_array csv = Inr objs) \<longleftrightarrow>
        (\<forall>l \<in> set (tl ?lines). length (str_split CHR '','' l) = length (str_split CHR '','' (hd ?lines)))"
      unfolding loop by (simp only: rows_loop_Inr_iff) simp
    have succ': "(\<exists>objs. csvToJson_array csv = Inr objs \<and> csvToJson fmt csv = Inr (JSON_stringify fmt objs 2))
        \<longleftrightarrow> (\<exists>objs. csvToJson_array csv = Inr objs)"
      by (auto simp: csvToJson_def)
    show ?thesis
      unfolding csvToJson_Inl_iff succ' using ne two kinds mism succ by simp
  qed
qed

theorem conversion_fails_iff_witness:
  "csvToJson (\<lambda>v. []) ''   '' = Inl EmptyInput
   \<and> csvToJson (\<lambda>v. []) [] = Inl EmptyInput
   \<and> csvToJson (\<lambda>v. []) ''a,b,c'' = Inl InsufficientRows
   \<and> error_message EmptyInput = ''CSV input is empty''
   \<and> error_message InsufficientRows = ''CSV must have at least a header row and one data row''"
proof -
  have a: "trim ''   '' = []" and b: "trim [] = []"
    and c: "trim ''a,b,c'' \<noteq> [] \<and> length (str_split CHR 0x0A (trim ''a,b,c'')) < 2"
    by (simp_all add: eval_string)
  have "csvToJson (\<lambda>v. []) ''   '' = Inl EmptyInput"
    using conversion_fails_iff [of "\<lambda>v. []" "''   ''"] a by blast
  moreover have "csvToJson (\<lambda>v. []) [] = Inl EmptyInput"
    using conversion_fails_iff [of "\<lambda>v. []" "[]"] b by blast
  moreover have "csvToJson (\<lambda>v. []) ''a,b,c'' = Inl InsufficientRows"
    using conversion_fails_iff [of "\<lambda>v. []" "''a,b,c''"] c by blast
  ultimately show ?thesis by simp
qed

text \<open>
  C2. Every cell, once trimmed, is coerced by this precedence: a cell that is not empty and
  that \<^verbatim>\<open>Number\<close> reads as a number becomes that number; otherwise a cell whose lower-case
  text is \<^verbatim>\<open>true\<close> or \<^verbatim>\<open>false\<close> becomes that boolean; otherwise a cell whose lower-case
  text is \<^verbatim>\<open>null\<close>, or that is empty, becomes \<^verbatim>\<open>null\<close>; otherwise it stays the trimmed
  string.
\<close>

theorem coercion_precedence:
  "coerce (trim cell) =
     (if trim cell \<noteq> [] \<and> Number (trim cell) \<noteq> NaN then JSNumber (Number (trim cell))
      else if toLowerCase (trim cell) = ''true'' then JSBoolean True
      else if toLowerCase (trim cell) = ''false'' then JSBoolean False
      else if toLowerCase (trim cell) = ''null'' \<or> trim cell = [] then JSNull
      else JSString (trim cell))"
  by (auto simp: coerce_def isNaN_def)

theorem coercion_precedence_witness:
  "coerce (trim ''42'') = JSNumber (Finite 42)
   \<and> coerce (trim '' 3.14 '') = JSNumber (Finite (314 / 100))
   \<and> coerce (trim ''TRUE'') = JSBoolean True
   \<and> coerce (trim ''true'') = JSBoolean True
   \<and> coerce (trim ''False'') = JSBoolean False
   \<and> coerce (trim ''null'') = JSNull
   \<and> coerce (trim '''') = JSNull
   \<and> coerce (trim ''New York'') = JSString ''New York''"
proof -
  have n: "trim ''42'' = ''42''" "Number ''42'' = Finite 42"
       "trim '' 3.14 '' = ''3.14''" "Number ''3.14'' = Finite (314 / 100)"
       "trim ''TRUE'' = ''TRUE''" "Number ''TRUE'' = NaN" "toLowerCase ''TRUE'' = ''true''"
       "trim ''true'' = ''true''" "Number ''true'' = NaN" "toLowerCase ''true'' = ''true''"
       "trim ''False'' = ''False''" "Number ''False'' = NaN" "toLowerCase ''False'' = ''false''"
       "trim ''null'' = ''null''" "Number ''null'' = NaN" "toLowerCase ''null'' = ''null''"
       "trim '''' = ''''" "toLowerCase '''' = ''''"
       "trim ''New York'' = ''New York''" "Number ''New York'' = NaN"
       "toLowerCase ''New York'' = ''new york''"
    by (simp_all add: eval_number eval_string)
  show ?thesis
    using coercion_precedence [of "''42''"] coercion_precedence [of "'' 3.14 ''"]
      coercion_precedence [of "''TRUE''"] coercion_precedence [of "''true''"]
      coercion_precedence [of "''False''"] coercion_precedence [of "''null''"]
      coercion_precedence [of "''''"] coercion_precedence [of "''New York''"]
    by (simp add: n)
qed

text \<open>
  C5. A cell that is empty once trimmed becomes \<^verbatim>\<open>null\<close>, written \<^verbatim>\<open>null\<close> in the output,
  and not the number 0, although \<^verbatim>\<open>Number\<close> of the empty string is 0 and the numeric test
  comes first: the test excludes the empty string. The cells \<^verbatim>\<open>null\<close> and \<^verbatim>\<open>NULL\<close> become
  \<^verbatim>\<open>null\<close> too.
\<close>

theorem blank_cell_is_null:
  "(trim cell = [] \<longrightarrow>
      coerce (trim cell) = JSNull \<and> coerce (trim cell) \<noteq> JSNumber (Finite 0)
      \<and> Number (trim cell) = Finite 0 \<and> \<not> isNaN (Number (trim cell))
      \<and> SerializeJSONProperty fmt (coerce (trim cell)) = ''null'')
   \<and> coerce ''null'' = JSNull \<and> coerce ''NULL'' = JSNull"
proof -
  have "coerce (trim cell) = JSNull \<and> coerce (trim cell) \<noteq> JSNumber (Finite 0)
     \<and> Number (trim cell) = Finite 0 \<and> \<not> isNaN (Number (trim cell))
     \<and> SerializeJSONProperty fmt (coerce (trim cell)) = ''null''" if t: "trim cell = []"
    unfolding t by (simp add: coerce_def Number_empty isNaN_def toLowerCase_def)
  moreover have "coerce ''null'' = JSNull \<and> coerce ''NULL'' = JSNull"
    by (simp add: coerce_def eval_number eval_string)
  ultimately show ?thesis by blast
qed

theorem blank_cell_is_null_witness:
  "trim ''  '' = []
   \<and> coerce (trim ''  '') = JSNull
   \<and> SerializeJSONProperty (\<lambda>v. []) (coerce (trim ''  '')) = ''null''
   \<and> csvToJson (\<lambda>v. []) ''a,b,c,d\<newline>, ,NULL,null'' =
       Inr (''[\<newline>  {\<newline>    '' @ [CHR 0x22] @ ''a'' @ [CHR 0x22] @ '': null,\<newline>    ''
              @ [CHR 0x22] @ ''b'' @ [CHR 0x22] @ '': null,\<newline>    ''
              @ [CHR 0x22] @ ''c'' @ [CHR 0x22] @ '': null,\<newline>    ''
              @ [CHR 0x22] @ ''d'' @ [CHR 0x22] @ '': null\<newline>  }\<newline>]'')"
proof -
  have b: "trim ''  '' = []" by (simp add: eval_string)
  have "coerce (trim ''  '') = JSNull \<and> SerializeJSONProperty (\<lambda>v. []) (coerce (trim ''  '')) = ''null''"
    using blank_cell_is_null [of "''  ''" "\<lambda>v. []"] b by blast
  moreover have "csvToJson (\<lambda>v. []) ''a,b,c,d\<newline>, ,NULL,null'' =
       Inr (''[\<newline>  {\<newline>    '' @ [CHR 0x22] @ ''a'' @ [CHR 0x22] @ '': null,\<newline>    ''
              @ [CHR 0x22] @ ''b'' @ [CHR 0x22] @ '': null,\<newline>    ''
              @ [CHR 0x22] @ ''c'' @ [CHR 0x22] @ '': null,\<newline>    ''
              @ [CHR 0x22] @ ''d'' @ [CHR 0x22] @ '': null\<newline>  }\<newline>]'')"
    by (simp add: eval_csv eval_object eval_number eval_string eval_json)
  ultimately show ?thesis using b by simp
qed

text \<open>
  C9. A cell whose trimmed text is \<^verbatim>\<open>Infinity\<close> or \<^verbatim>\<open>-Infinity\<close> passes the numeric test
  and becomes a Number that is not finite, which is written \<^verbatim>\<open>null\<close>; a cell \<^verbatim>\<open>NaN\<close>
  fails the numeric test and stays the string \<^verbatim>\<open>NaN\<close>, written in quotes.
\<close>

theorem non_finite_cells:
  "(trim cell = ''Infinity'' \<longrightarrow>
      \<not> isNaN (Number (trim cell)) \<and> coerce (trim cell) = JSNumber (Infinity False)
      \<and> SerializeJSONProperty fmt (coerce (trim cell)) = ''null'')
   \<and> (trim cell = ''-Infinity'' \<longrightarrow>
      \<not> isNaN (Number (trim cell)) \<and> coerce (trim cell) = JSNumber (Infinity True)
      \<and> SerializeJSONProperty fmt (coerce (trim cell)) = ''null'')
   \<and> (trim cell = ''NaN'' \<longrightarrow>
      isNaN (Number (trim cell)) \<and> coerce (trim cell) = JSString ''NaN''
      \<and> SerializeJSONProperty fmt (coerce (trim cell)) = QuoteJSONString ''NaN'')"
proof -
  have p: "Number ''Infinity'' = Infinity False" and m: "Number ''-Infinity'' = Infinity True"
    and n: "Number ''NaN'' = NaN" and l: "toLowerCase ''NaN'' = ''nan''"
    by (simp_all add: eval_number eval_string)
  show ?thesis by (simp add: coerce_def isNaN_def p m n l)
qed

theorem non_finite_cells_witness:
  "coerce (trim '' Infinity'') = JSNumber (Infinity False)
   \<and> coerce (trim ''-Infinity'') = JSNumber (Infinity True)
   \<and> coerce (trim ''NaN'') = JSString ''NaN''
   \<and> csvToJson (\<lambda>v. []) ''a,b,c\<newline> Infinity,-Infinity,NaN'' =
       Inr (''[\<newline>  {\<newline>    '' @ [CHR 0x22] @ ''a'' @ [CHR 0x22] @ '': null,\<newline>    ''
              @ [CHR 0x22] @ ''b'' @ [CHR 0x22] @ '': null,\<newline>    ''
              @ [CHR 0x22] @ ''c'' @ [CHR 0x22] @ '': '' @ [CHR 0x22] @ ''NaN'' @ [CHR 0x22] @ ''\<newline>  }\<newline>]'')"
proof -
  have t: "trim '' Infinity'' = ''Infinity''" "trim ''-Infinity'' = ''-Infinity''" "trim ''NaN'' = ''NaN''"
    by (simp_all add: eval_string)
  have "coerce (trim '' Infinity'') = JSNumber (Infinity False)"
    using non_finite_cells [of "'' Infinity''" "\<lambda>v. []"] t by blast
  moreover have "coerce (trim ''-Infinity'') = JSNumber (Infinity True)"
    using non_finite_cells [of "''-Infinity''" "\<lambda>v. []"] t by blast
  moreover have "coerce (trim ''NaN'') = JSString ''NaN''"
    using non_finite_cells [of "''NaN''" "\<lambda>v. []"] t by blast
  moreover have "csvToJson (\<lambda>v. []) ''a,b,c\<newline> Infinity,-Infinity,NaN'' =
       Inr (''[\<newline>  {\<newline>    '' @ [CHR 0x22] @ ''a'' @ [CHR 0x22] @ '': null,\<newline>    ''
              @ [CHR 0x22] @ ''b'' @ [CHR 0x22] @ '': null,\<newline>    ''
              @ [CHR 0x22] @ ''c'' @ [CHR 0x22] @ '': '' @ [CHR 0x22] @ ''NaN'' @ [CHR 0x22] @ ''\<newline>  }\<newline>]'')"
    by (simp add: eval_csv eval_object eval_number eval_string eval_json)
  ultimately show ?thesis by simp
qed

text \<open>
  C10. An input whose lines end in carriage return and line feed is converted to the same
  result, text or error, as the input with line feeds alone: the carriage return stays at
  the end of the last field of its line and is trimmed with it.
\<close>

theorem crlf_input_same_result: "csvToJson fmt (to_crlf csv) = csvToJson fmt csv"
  by (simp add: csvToJson_def csvToJson_array_to_crlf)

theorem crlf_input_same_result_witness:
  "to_crlf ''a,b\<newline>1, x\<newline>'' = ''a,b'' @ [CHR 0x0D, CHR 0x0A] @ ''1, x'' @ [CHR 0x0D, CHR 0x0A]
   \<and> csvToJson (\<lambda>v. []) (''a,b'' @ [CHR 0x0D, CHR 0x0A] @ ''1, x'' @ [CHR 0x0D, CHR 0x0A])
       = csvToJson (\<lambda>v. []) ''a,b\<newline>1, x\<newline>''
   \<and> csvToJson (\<lambda>v. []) ''a,b\<newline>1, x\<newline>'' =
       Inr (''[\<newline>  {\<newline>    '' @ [CHR 0x22] @ ''a'' @ [CHR 0x22] @ '': 1,\<newline>    ''
              @ [CHR 0x22] @ ''b'' @ [CHR 0x22] @ '': '' @ [CHR 0x22] @ ''x'' @ [CHR 0x22] @ ''\<newline>  }\<newline>]'')"
proof -
  have c: "to_crlf ''a,b\<newline>1, x\<newline>'' = ''a,b'' @ [CHR 0x0D, CHR 0x0A] @ ''1, x'' @ [CHR 0x0D, CHR 0x0A]"
    by (simp add: to_crlf_def)
  have e: "csvToJson (\<lambda>v. []) ''a,b\<newline>1, x\<newline>'' =
       Inr (''[\<newline>  {\<newline>    '' @ [CHR 0x22] @ ''a'' @ [CHR 0x22] @ '': 1,\<newline>    ''
              @ [CHR 0x22] @ ''b'' @ [CHR 0x22] @ '': '' @ [CHR 0x22] @ ''x'' @ [CHR 0x22] @ ''\<newline>  }\<newline>]'')"
    by (simp add: eval_csv eval_object eval_number eval_string eval_json)
  have "csvToJson (\<lambda>v. []) (to_crlf ''a,b\<newline>1, x\<newline>'') = csvToJson (\<lambda>v. []) ''a,b\<newline>1, x\<newline>''"
    by (rule crlf_input_same_result)
  then show ?thesis using c e by simp
qed

text \<open>
  C8. The conversion is deterministic and free of side effects. Started in any heap, the
  converter returns the text or throws the error that \<open>csvToJson\<close> gives for the input
  alone, and never reaches a step that is stuck; so two calls on the same input give the
  same result whatever the heaps they start in, and a second call in the heap the first
  one left repeats its result. Every cell that existed before the call is unchanged after
  it: all the call does to the heap is to allocate its own array and row objects.
\<close>

theorem csvToJson_deterministic_side_effect_free:
  "fst (csvToJson_heap fmt h csv) = Some (csvToJson fmt csv)
   \<and> fst (csvToJson_heap fmt h' csv) = fst (csvToJson_heap fmt h csv)
   \<and> fst (csvToJson_heap fmt (snd (csvToJson_heap fmt h csv)) csv) = fst (csvToJson_heap fmt h csv)
   \<and> take (length h) (snd (csvToJson_heap fmt h csv)) = h"
  by (simp add: csvToJson_heap_result csvToJson_heap_frame)

theorem csvToJson_deterministic_side_effect_free_witness:
  "csvToJson_heap (\<lambda>v. [])
     [ObjCell \<lparr>has_prototype = True, props = [(''a'', JSNull)]\<rparr>, ArrCell [0]] ''a\<newline>1''
   = (Some (Inr (''[\<newline>  {\<newline>    '' @ [CHR 0x22] @ ''a'' @ [CHR 0x22] @ '': 1\<newline>  }\<newline>]'')),
      [ObjCell \<lparr>has_prototype = True, props = [(''a'', JSNull)]\<rparr>, ArrCell [0],
       ArrCell [3], ObjCell \<lparr>has_prototype = True, props = [(''a'', JSNumber (Finite 1))]\<rparr>])
   \<and> fst (csvToJson_heap (\<lambda>v. [])
          [ObjCell \<lparr>has_prototype = True, props = [(''a'', JSNull)]\<rparr>, ArrCell [0],
           ArrCell [3], ObjCell \<lparr>has_prototype = True, props = [(''a'', JSNumber (Finite 1))]\<rparr>]
          ''a\<newline>1'')
     = Some (Inr (''[\<newline>  {\<newline>    '' @ [CHR 0x22] @ ''a'' @ [CHR 0x22] @ '': 1\<newline>  }\<newline>]''))
   \<and> csvToJson_heap (\<lambda>v. []) [ArrCell []] ''a,b\<newline>1''
     = (Some (Inl (ColumnMismatch 2 1 2)), [ArrCell [], ArrCell []])"
proof -
  let ?h = "[ObjCell \<lparr>has_prototype = True, props = [(''a'', JSNull)]\<rparr>, ArrCell [0]]"
  let ?h' = "[ObjCell \<lparr>has_prototype = True, props = [(''a'', JSNull)]\<rparr>, ArrCell [0],
       ArrCell [3], ObjCell \<lparr>has_prototype = True, props = [(''a'', JSNumber (Finite 1))]\<rparr>]"
  let ?out = "''[\<newline>  {\<newline>    '' @ [CHR 0x22] @ ''a'' @ [CHR 0x22] @ '': 1\<newline>  }\<newline>]''"
  have run: "csvToJson_heap (\<lambda>v. []) ?h ''a\<newline>1'' = (Some (Inr ?out), ?h')"
    by (simp add: eval_heap eval_object eval_number eval_string eval_json)
  have "fst (csvToJson_heap (\<lambda>v. []) (snd (csvToJson_heap (\<lambda>v. []) ?h ''a\<newline>1'')) ''a\<newline>1'')
          = fst (csvToJson_heap (\<lambda>v. []) ?h ''a\<newline>1'')"
    using csvToJson_deterministic_side_effect_free [of "\<lambda>v. []" ?h "''a\<newline>1''" ?h] by blast
  then have again: "fst (csvToJson_heap (\<lambda>v. []) ?h' ''a\<newline>1'') = Some (Inr ?out)"
    unfolding run by simp
  have err: "csvToJson_heap (\<lambda>v. []) [ArrCell []] ''a,b\<newline>1''
     = (Some (Inl (ColumnMismatch 2 1 2)), [ArrCell [], ArrCell []])"
    by (simp add: eval_heap eval_string)
  from run again err show ?thesis by simp
qed

end
